theory Spec2Isabelle
  imports Main "HOL-Library.AList"
begin

section \<open>JavaScript values\<close>

text \<open>
  The document (\<^verbatim>\<open>this.spec\<close>) and every schema node are JavaScript values built from
  parsed JSON. An object is its list of own properties in enumeration order (what
  \<^verbatim>\<open>for ... in\<close>, a spread and \<^verbatim>\<open>Object.assign\<close> walk through); reading a property is a
  lookup in that list. \<open>JUndefined\<close> is a value of its own: the program stores it
  (\<^verbatim>\<open>allOf: undefined\<close>) and compares against it. Numbers are opaque to this program apart
  from their truthiness, and are integers here.
\<close>

datatype json =
    JUndefined
  | JNull
  | JBool bool
  | JNum int
  | JStr string
  | JArr "json list"
  | JObj "(string \<times> json) list"

text \<open>
  What the program can throw: the \<^verbatim>\<open>TypeError\<close> of a property read on \<^verbatim>\<open>undefined\<close> or
  \<^verbatim>\<open>null\<close> and of a call of something that is not a function, the \<^verbatim>\<open>URIError\<close> of
  \<^verbatim>\<open>decodeURIComponent\<close>, and the \<^verbatim>\<open>Error\<close> of \<^verbatim>\<open>mergeAllOf\<close>, which carries the
  \<^verbatim>\<open>$ref\<close> its message interpolates.
\<close>

datatype error = TypeError | URIError | UncopatibleTypes json

fun truthy :: "json \<Rightarrow> bool" where
  "truthy JUndefined = False"
| "truthy JNull = False"
| "truthy (JBool b) = b"
| "truthy (JNum n) = (n \<noteq> 0)"
| "truthy (JStr s) = (s \<noteq> [])"
| "truthy (JArr xs) = True"
| "truthy (JObj kvs) = True"

text \<open>\<^verbatim>\<open>a || b\<close>\<close>

definition js_or :: "json \<Rightarrow> json \<Rightarrow> json" where
  "js_or a b = (if truthy a then a else b)"

text \<open>Decimal numerals, for array indices as property names and for \<^verbatim>\<open>String(n)\<close>.\<close>

fun show_nat :: "nat \<Rightarrow> string" where
  "show_nat n =
     (if n < 10 then [char_of (48 + n)]
      else show_nat (n div 10) @ [char_of (48 + n mod 10)])"

declare show_nat.simps [simp del]

definition show_int :: "int \<Rightarrow> string" where
  "show_int i = (if i < 0 then CHR ''-'' # show_nat (nat (- i)) else show_nat (nat i))"

fun join :: "string \<Rightarrow> string list \<Rightarrow> string" where
  "join sep [] = []"
| "join sep [s] = s"
| "join sep (s # t # ts) = s @ sep @ join sep (t # ts)"

text \<open>
  \<^verbatim>\<open>String(v)\<close>, the conversion JavaScript applies to a property key that is not a string
  and to the argument of \<^verbatim>\<open>String.prototype.concat\<close>.
\<close>

fun ToString :: "json \<Rightarrow> string" where
  "ToString JUndefined = ''undefined''"
| "ToString JNull = ''null''"
| "ToString (JBool b) = (if b then ''true'' else ''false'')"
| "ToString (JNum n) = show_int n"
| "ToString (JStr s) = s"
| "ToString (JArr xs) =
     join '','' (map (\<lambda>x. if x = JUndefined \<or> x = JNull then [] else ToString x) xs)"
| "ToString (JObj kvs) = ''[object Object]''"

text \<open>
  The own enumerable properties of a value, in order: what a spread \<^verbatim>\<open>{...v}\<close>,
  \<^verbatim>\<open>Object.assign\<close> and \<^verbatim>\<open>for ... in\<close> see. An array and a string have their indices;
  the other primitives, \<^verbatim>\<open>undefined\<close> and \<^verbatim>\<open>null\<close> have none.
\<close>

fun own_enumerable :: "json \<Rightarrow> (string \<times> json) list" where
  "own_enumerable (JObj kvs) = kvs"
| "own_enumerable (JArr xs) = zip (map show_nat [0..<length xs]) xs"
| "own_enumerable (JStr s) = zip (map show_nat [0..<length s]) (map (\<lambda>c. JStr [c]) s)"
| "own_enumerable v = []"

text \<open>
  \<^verbatim>\<open>Object.assign(target, source)\<close> and \<^verbatim>\<open>{...target, ...source}\<close>: the properties
  of the source are written into the target one after the other, a key that is already
  there keeps its place and takes the new value.
\<close>

definition assign :: "(string \<times> 'v) list \<Rightarrow> (string \<times> 'v) list \<Rightarrow> (string \<times> 'v) list" where
  "assign target source = fold (\<lambda>(k, v). AList.update k v) source target"

text \<open>\<^verbatim>\<open>o.k\<close> on an object given by its properties: \<^verbatim>\<open>undefined\<close> when the key is absent.\<close>

definition field :: "(string \<times> json) list \<Rightarrow> string \<Rightarrow> json" where
  "field kvs k = (case map_of kvs k of None \<Rightarrow> JUndefined | Some v \<Rightarrow> v)"

text \<open>
  \<^verbatim>\<open>v.k\<close> on a value that is neither \<^verbatim>\<open>undefined\<close> nor \<^verbatim>\<open>null\<close>, for the property
  names this program reads (\<^verbatim>\<open>$ref\<close>, \<^verbatim>\<open>allOf\<close>, \<^verbatim>\<open>parentRefs\<close>, \<^verbatim>\<open>type\<close>,
  \<^verbatim>\<open>properties\<close>, \<^verbatim>\<open>required\<close>, \<^verbatim>\<open>title\<close>, \<^verbatim>\<open>components\<close>, \<^verbatim>\<open>schemas\<close>: none is an
  index, \<^verbatim>\<open>length\<close> or a method of a prototype, so arrays and primitives answer
  \<^verbatim>\<open>undefined\<close>).
\<close>

definition own_prop :: "json \<Rightarrow> string \<Rightarrow> json" where
  "own_prop v k = (case v of JObj kvs \<Rightarrow> field kvs k | _ \<Rightarrow> JUndefined)"

text \<open>\<^verbatim>\<open>v.k\<close> on any value: reading a property of \<^verbatim>\<open>undefined\<close> or \<^verbatim>\<open>null\<close> throws.\<close>

definition getprop :: "json \<Rightarrow> string \<Rightarrow> error + json" where
  "getprop v k = (if v = JUndefined \<or> v = JNull then Inl TypeError else Inr (own_prop v k))"

text \<open>
  The elements a spread argument \<^verbatim>\<open>f(...v)\<close> iterates: those of an array, the characters
  of a string; any other value that gets there is not iterable.
\<close>

fun spread_args :: "json \<Rightarrow> error + json list" where
  "spread_args (JArr xs) = Inr xs"
| "spread_args (JStr s) = Inr (map (\<lambda>c. JStr [c]) s)"
| "spread_args v = Inl TypeError"

text \<open>
  \<^verbatim>\<open>a.push(...items)\<close>, where \<^verbatim>\<open>a\<close> is the \<^verbatim>\<open>parentRefs\<close> of the receiver: the array
  grows in place, so the receiver that holds it sees the new elements.
\<close>

definition push_parentRefs ::
  "(string \<times> json) list \<Rightarrow> json list \<Rightarrow> error + (string \<times> json) list" where
  "push_parentRefs receiver items =
     (case field receiver ''parentRefs'' of
        JArr ps \<Rightarrow> Inr (AList.update ''parentRefs'' (JArr (ps @ items)) receiver)
      | _ \<Rightarrow> Inl TypeError)"

text \<open>
  \<^verbatim>\<open>a.concat(b)\<close> for a truthy \<^verbatim>\<open>a\<close>: an array takes the elements of an array argument
  and any other argument as one element; a string appends \<^verbatim>\<open>String(b)\<close>; no other value
  has a \<^verbatim>\<open>concat\<close>.
\<close>

fun js_concat :: "json \<Rightarrow> json \<Rightarrow> error + json" where
  "js_concat (JArr xs) (JArr ys) = Inr (JArr (xs @ ys))"
| "js_concat (JArr xs) b = Inr (JArr (xs @ [b]))"
| "js_concat (JStr s) b = Inr (JStr (s @ ToString b))"
| "js_concat a b = Inl TypeError"

section \<open>The collaborators outside this file\<close>

text \<open>
  \<^verbatim>\<open>OpenAPIParser.ts\<close> calls functions it does not define: the built-in
  \<^verbatim>\<open>decodeURIComponent\<close>, and \<^verbatim>\<open>JsonPointer.get\<close>, \<^verbatim>\<open>JsonPointer.baseName\<close> and
  \<^verbatim>\<open>isNamedDefinition\<close> of \<^verbatim>\<open>utils/\<close>. They are parameters of the model, so that
  every theorem holds whatever they compute:
  \<^item> \<open>decodeURIComponent\<close>: \<open>None\<close> when it throws (a malformed escape);
  \<^item> \<open>pointer_tokens\<close>: the path segments \<^verbatim>\<open>JsonPointer.get\<close> splits a pointer into,
    \<open>None\<close> when the pointer is malformed;
  \<^item> \<open>isNamedDefinition\<close>, \<open>baseName\<close>: applied to a \<^verbatim>\<open>$ref\<close> argument, a string or
    \<^verbatim>\<open>undefined\<close>.
\<close>

record lib =
  decodeURIComponent :: "string \<Rightarrow> string option"
  pointer_tokens :: "string \<Rightarrow> string list option"
  isNamedDefinition :: "json \<Rightarrow> bool"
  baseName :: "json \<Rightarrow> json"

text \<open>
  Modelled from the spec: \<^verbatim>\<open>JsonPointer.get\<close> (\<^verbatim>\<open>utils/JsonPointer\<close>) is not among the
  sources. The specification of the pointer resolver: "Resolution walks the pointer's path
  segments through the document tree; a missing key, missing index, or type mismatch
  (e.g., indexing into a scalar) fails with a NotFound error." \<open>None\<close> is that failure.
\<close>

fun walk :: "json \<Rightarrow> string list \<Rightarrow> json option" where
  "walk v [] = Some v"
| "walk (JObj kvs) (t # ts) =
     (case map_of kvs t of None \<Rightarrow> None | Some v \<Rightarrow> walk v ts)"
| "walk (JArr xs) (t # ts) =
     (case find (\<lambda>i. show_nat i = t) [0..<length xs] of
        None \<Rightarrow> None
      | Some i \<Rightarrow> walk (xs ! i) ts)"
| "walk v (t # ts) = None"

definition JsonPointer_get :: "lib \<Rightarrow> json \<Rightarrow> string \<Rightarrow> json option" where
  "JsonPointer_get L doc pointer =
     (case pointer_tokens L pointer of None \<Rightarrow> None | Some ts \<Rightarrow> walk doc ts)"

section \<open>The reference counter (class RefCounter)\<close>

text \<open>
  \<^verbatim>\<open>_counter\<close> is a plain JavaScript object, \<^verbatim>\<open>{}\<close>, used as a dictionary from pointer
  strings to numbers. A plain object inherits from \<^verbatim>\<open>Object.prototype\<close>: reading a key
  the object does not have itself finds what \<^verbatim>\<open>Object.prototype\<close> has under that name,
  a built-in function for a name such as \<^verbatim>\<open>constructor\<close> or \<^verbatim>\<open>toString\<close>, and
  \<^verbatim>\<open>Object.prototype\<close> itself for \<^verbatim>\<open>__proto__\<close>. So what is read under a key, and what
  \<open>visit\<close> and \<open>exit\<close> compute from it, is one of:
  \<^item> \<^verbatim>\<open>undefined\<close>;
  \<^item> a number (\<open>int\<close>, not \<open>nat\<close>: that a counter never goes below zero is something to
    prove, not something the type gives away);
  \<^item> \<^verbatim>\<open>NaN\<close>;
  \<^item> \<open>EBuiltin name\<close>, the value \<^verbatim>\<open>Object.prototype\<close> has under \<open>name\<close>;
  \<^item> \<open>EText name k\<close>, the string \<^verbatim>\<open>String(Object.prototype[name])\<close> followed by \<open>k\<close>
    characters \<^verbatim>\<open>1\<close>, which is what \<^verbatim>\<open>+ 1\<close> makes of such a value.
\<close>

datatype entry = EUndefined | ENum int | ENaN | EBuiltin string | EText string nat

text \<open>The names under which \<^verbatim>\<open>Object.prototype\<close> has a member.\<close>

definition prototype_members :: "string list" where
  "prototype_members =
     [''constructor'', ''__defineGetter__'', ''__defineSetter__'', ''hasOwnProperty'',
      ''__lookupGetter__'', ''__lookupSetter__'', ''isPrototypeOf'', ''propertyIsEnumerable'',
      ''toString'', ''valueOf'', ''__proto__'', ''toLocaleString'']"

text \<open>The own properties of \<^verbatim>\<open>_counter\<close>: \<open>None\<close> for a key the object does not have.\<close>

record RefCounter =
  counter :: "string \<Rightarrow> entry option"

text \<open>\<^verbatim>\<open>this._counter[ref]\<close>, read: the own property, or else the inherited one.\<close>

definition get_entry :: "RefCounter \<Rightarrow> string \<Rightarrow> entry" where
  "get_entry rc ref =
     (case counter rc ref of
        Some e \<Rightarrow> e
      | None \<Rightarrow> if ref \<in> set prototype_members then EBuiltin ref else EUndefined)"

text \<open>
  \<^verbatim>\<open>this._counter[ref] = e\<close>: the object gets the key as its own, over an inherited
  member too. The one exception is \<^verbatim>\<open>__proto__\<close>, which \<^verbatim>\<open>Object.prototype\<close> has as a
  setter that takes an object or \<^verbatim>\<open>null\<close> and does nothing with any other value;
  \<open>visit\<close> and \<open>exit\<close> write numbers, \<^verbatim>\<open>NaN\<close>, \<^verbatim>\<open>undefined\<close> and strings only.
\<close>

definition set_entry :: "RefCounter \<Rightarrow> string \<Rightarrow> entry \<Rightarrow> RefCounter" where
  "set_entry rc ref e =
     (if ref = ''__proto__'' \<and> counter rc ref = None then rc
      else rc\<lparr>counter := (counter rc)(ref \<mapsto> e)\<rparr>)"

text \<open>
  JavaScript truthiness of an entry: \<^verbatim>\<open>undefined\<close>, \<^verbatim>\<open>0\<close> and \<^verbatim>\<open>NaN\<close> are falsy; a
  function, an object and a non-empty string are truthy.
\<close>

fun entry_truthy :: "entry \<Rightarrow> bool" where
  "entry_truthy EUndefined = False"
| "entry_truthy (ENum n) = (n \<noteq> 0)"
| "entry_truthy ENaN = False"
| "entry_truthy (EBuiltin name) = True"
| "entry_truthy (EText name k) = True"

text \<open>
  \<^verbatim>\<open>e + 1\<close>: a function or an object is turned into its string and \<^verbatim>\<open>1\<close> is appended
  to it, as it is to a string.
\<close>

fun plus_one :: "entry \<Rightarrow> entry" where
  "plus_one EUndefined = ENaN"
| "plus_one (ENum n) = ENum (n + 1)"
| "plus_one ENaN = ENaN"
| "plus_one (EBuiltin name) = EText name 1"
| "plus_one (EText name k) = EText name (Suc k)"

text \<open>
  \<^verbatim>\<open>e - 1\<close>: the operand is turned into a number, and the text of a function or of an
  object, with or without \<^verbatim>\<open>1\<close>s after it, is not a numeral.
\<close>

fun minus_one :: "entry \<Rightarrow> entry" where
  "minus_one EUndefined = ENaN"
| "minus_one (ENum n) = ENum (n - 1)"
| "minus_one ENaN = ENaN"
| "minus_one (EBuiltin name) = ENaN"
| "minus_one (EText name k) = ENaN"

text \<open>\<^verbatim>\<open>new RefCounter()\<close> and \<^verbatim>\<open>reset()\<close>: \<^verbatim>\<open>this._counter = {}\<close>.\<close>

definition new_RefCounter :: RefCounter where
  "new_RefCounter = \<lparr>counter = (\<lambda>_. None)\<rparr>"

definition reset :: "RefCounter \<Rightarrow> RefCounter" where
  "reset rc = rc\<lparr>counter := (\<lambda>_. None)\<rparr>"

text \<open>\<^verbatim>\<open>this._counter[ref] = this._counter[ref] ? this._counter[ref] + 1 : 1\<close>\<close>

definition visit :: "RefCounter \<Rightarrow> string \<Rightarrow> RefCounter" where
  "visit rc ref =
     set_entry rc ref
       (if entry_truthy (get_entry rc ref) then plus_one (get_entry rc ref) else ENum 1)"

text \<open>
  \<^verbatim>\<open>this._counter[ref] = this._counter[ref] && this._counter[ref] - 1\<close>:
  \<^verbatim>\<open>a && b\<close> is \<^verbatim>\<open>a\<close> when \<^verbatim>\<open>a\<close> is falsy, so \<^verbatim>\<open>undefined\<close>, \<^verbatim>\<open>0\<close> and \<^verbatim>\<open>NaN\<close> are
  written back as they are.
\<close>

definition exit :: "RefCounter \<Rightarrow> string \<Rightarrow> RefCounter" where
  "exit rc ref =
     set_entry rc ref
       (if entry_truthy (get_entry rc ref) then minus_one (get_entry rc ref) else get_entry rc ref)"

text \<open>\<^verbatim>\<open>return !!this._counter[ref]\<close>\<close>

definition visited :: "RefCounter \<Rightarrow> string \<Rightarrow> bool" where
  "visited rc ref = entry_truthy (get_entry rc ref)"

text \<open>
  A sequence of calls on one counter. \<open>Visited\<close> is the query: it returns a value and
  leaves the counter as it is.
\<close>

datatype call = Visit string | Exit string | Visited string | Reset

fun apply_call :: "RefCounter \<Rightarrow> call \<Rightarrow> RefCounter" where
  "apply_call rc (Visit p) = visit rc p"
| "apply_call rc (Exit p) = exit rc p"
| "apply_call rc (Visited p) = rc"
| "apply_call rc Reset = reset rc"

fun run_calls :: "RefCounter \<Rightarrow> call list \<Rightarrow> RefCounter" where
  "run_calls rc [] = rc"
| "run_calls rc (c # cs) = run_calls (apply_call rc c) cs"

text \<open>
  The number an entry stands for, when it stands for one: \<^verbatim>\<open>undefined\<close> is "logically
  zero".
\<close>

definition logical :: "RefCounter \<Rightarrow> string \<Rightarrow> int option" where
  "logical rc p =
     (case get_entry rc p of EUndefined \<Rightarrow> Some 0 | ENum n \<Rightarrow> Some n | _ \<Rightarrow> None)"

text \<open>
  An entry that is truthy and that \<open>visit\<close> leaves truthy: a positive number, or one
  of the values that are not numbers.
\<close>

definition positive :: "RefCounter \<Rightarrow> string \<Rightarrow> bool" where
  "positive rc p =
     (case get_entry rc p of
        ENum n \<Rightarrow> 0 < n
      | EBuiltin name \<Rightarrow> True
      | EText name k \<Rightarrow> True
      | _ \<Rightarrow> False)"

text \<open>
  The visit depth as the specification words it: a natural number per pointer that
  \<open>visit\<close> increments (an absent key counts as 0), \<open>exit\<close> decrements without going
  below zero, and \<open>reset\<close> clears.
\<close>

fun spec_depth :: "(string \<Rightarrow> nat) \<Rightarrow> call \<Rightarrow> (string \<Rightarrow> nat)" where
  "spec_depth d (Visit p) = d(p := Suc (d p))"
| "spec_depth d (Exit p) = d(p := d p - 1)"
| "spec_depth d (Visited p) = d"
| "spec_depth d Reset = (\<lambda>_. 0)"

fun spec_depths :: "(string \<Rightarrow> nat) \<Rightarrow> call list \<Rightarrow> (string \<Rightarrow> nat)" where
  "spec_depths d [] = d"
| "spec_depths d (c # cs) = spec_depths (spec_depth d c) cs"

section \<open>Looking up and dereferencing (class OpenAPIParser)\<close>

text \<open>
  \<^verbatim>\<open>byRef\<close>: \<^verbatim>\<open>undefined\<close> when there is no document; a \<^verbatim>\<open>#\<close> is put in front of a
  pointer that does not start with one; \<^verbatim>\<open>decodeURIComponent\<close> is called outside the
  \<^verbatim>\<open>try\<close>, so its \<^verbatim>\<open>URIError\<close> leaves \<^verbatim>\<open>byRef\<close>; whatever \<^verbatim>\<open>JsonPointer.get\<close> throws
  is caught, and \<^verbatim>\<open>res\<close> is still \<^verbatim>\<open>undefined\<close> then. The parameter is declared a
  string; on any other value \<^verbatim>\<open>ref.charAt\<close> is not a function.
\<close>

definition byRef :: "lib \<Rightarrow> json \<Rightarrow> json \<Rightarrow> error + json" where
  "byRef L spec ref =
     (if spec = JUndefined then Inr JUndefined
      else (case ref of
          JStr s \<Rightarrow>
            (case decodeURIComponent L (if take 1 s \<noteq> ''#'' then ''#'' @ s else s) of
               None \<Rightarrow> Inl URIError
             | Some pointer \<Rightarrow>
                (case JsonPointer_get L spec pointer of
                   None \<Rightarrow> Inr JUndefined
                 | Some res \<Rightarrow> Inr res))
        | _ \<Rightarrow> Inl TypeError))"

text \<open>
  \<^verbatim>\<open>isRef\<close>: a falsy value is not a reference; otherwise the value is one when its
  \<^verbatim>\<open>$ref\<close> is neither \<^verbatim>\<open>undefined\<close> nor \<^verbatim>\<open>null\<close>.
\<close>

definition isRef :: "json \<Rightarrow> bool" where
  "isRef obj =
     (if \<not> truthy obj then False
      else own_prop obj ''$ref'' \<noteq> JUndefined \<and> own_prop obj ''$ref'' \<noteq> JNull)"

text \<open>
  \<^verbatim>\<open>obj.$ref\<close> as the key of the counter: a property key that is not a string is
  converted to one.
\<close>

definition ref_key :: "json \<Rightarrow> string" where
  "ref_key obj = ToString (own_prop obj ''$ref'')"

definition exitRef :: "RefCounter \<Rightarrow> json \<Rightarrow> RefCounter" where
  "exitRef rc ref = (if \<not> isRef ref then rc else exit rc (ref_key ref))"

text \<open>
  \<^verbatim>\<open>Object.assign({}, resolved, { 'x-circular-ref': true })\<close>. Every own property of
  \<^verbatim>\<open>resolved\<close> is assigned to the copy; no keyword of a schema is \<^verbatim>\<open>__proto__\<close>, the one
  name an assignment does not make an own property of, so each becomes a property of
  the copy.
\<close>

definition circular :: "json \<Rightarrow> json" where
  "circular resolved =
     JObj (assign (assign [] (own_enumerable resolved)) [(''x-circular-ref'', JBool True)])"

subsection \<open>Why \<open>deref\<close> returns\<close>

text \<open>
  A value \<^verbatim>\<open>byRef\<close> finds is a part of the document, and the document has finitely
  many parts. Every recursive call of \<^verbatim>\<open>deref\<close> but the first runs with
  \<^verbatim>\<open>forceCircular = false\<close>, on a reference found in the document whose pointer was not
  visited before the call and is visited after it.
\<close>

fun subvalues :: "json \<Rightarrow> json list" where
  "subvalues (JArr xs) = JArr xs # concat (map subvalues xs)"
| "subvalues (JObj kvs) = JObj kvs # concat (map (\<lambda>kv. subvalues (snd kv)) kvs)"
| "subvalues v = [v]"

definition refkeys :: "json \<Rightarrow> string set" where
  "refkeys spec = set (map ref_key (filter isRef (subvalues spec)))"

definition unvisited :: "json \<Rightarrow> RefCounter \<Rightarrow> string set" where
  "unvisited spec rc = {k \<in> refkeys spec. \<not> positive rc k}"

definition deref_measure :: "json \<Rightarrow> RefCounter \<Rightarrow> json \<Rightarrow> bool \<Rightarrow> nat" where
  "deref_measure spec rc obj fc =
     2 * card (unvisited spec rc)
     + (if ref_key obj \<in> refkeys spec then 0 else 2)
     + (if fc then 1 else 0)"

lemma subvalues_self: "v \<in> set (subvalues v)"
  by (cases v) auto

lemma walk_subvalue: "walk v ts = Some w \<Longrightarrow> w \<in> set (subvalues v)"
proof (induction v ts rule: walk.induct)
  case (1 v)
  then show ?case by (simp add: subvalues_self)
next
  case (2 kvs t ts)
  then show ?case
    by (fastforce split: option.splits dest!: map_of_SomeD)
next
  case (3 xs t ts)
  from "3.prems" obtain i where f: "find (\<lambda>i. show_nat i = t) [0..<length xs] = Some i"
    and w: "walk (xs ! i) ts = Some w"
    by (auto split: option.splits)
  from f have "i \<in> set [0..<length xs]"
    by (metis find_Some_iff nth_mem)
  then have "xs ! i \<in> set xs" by simp
  with "3.IH" [OF f w] show ?case by auto
qed auto

lemma byRef_subvalue:
  "byRef L spec r = Inr v \<Longrightarrow> v = JUndefined \<or> v \<in> set (subvalues spec)"
  by (auto simp: byRef_def JsonPointer_get_def split: if_splits json.splits option.splits
      dest: walk_subvalue)

lemma finite_unvisited: "finite (unvisited spec rc)"
  by (simp add: unvisited_def refkeys_def)

lemma get_entry_set_entry:
  "get_entry (set_entry rc k e) k'
     = (if k' = k \<and> \<not> (k = ''__proto__'' \<and> counter rc k = None) then e else get_entry rc k')"
proof (cases "k = ''__proto__'' \<and> counter rc k = None")
  case True
  then have k: "k = ''__proto__''" and c: "counter rc ''__proto__'' = None" by auto
  have "set_entry rc k e = rc" by (simp add: set_entry_def k c)
  then show ?thesis by (simp add: k c)
next
  case False
  then have "set_entry rc k e = rc\<lparr>counter := (counter rc)(k \<mapsto> e)\<rparr>"
    by (auto simp: set_entry_def)
  then show ?thesis using False by (simp add: get_entry_def)
qed

lemma get_entry_proto:
  "counter rc ''__proto__'' = None \<Longrightarrow> get_entry rc ''__proto__'' = EBuiltin ''__proto__''"
  by (simp add: get_entry_def prototype_members_def)

lemma positive_visited: "positive rc p \<Longrightarrow> visited rc p"
  by (cases "get_entry rc p") (simp_all add: positive_def visited_def)

lemma pos_visit:
  "positive (visit rc k) k' \<longleftrightarrow>
     (if k' = k then visited rc k \<longrightarrow> positive rc k else positive rc k')"
proof (cases "k' = k")
  case False
  then show ?thesis by (simp add: positive_def visit_def get_entry_set_entry)
next
  case True
  show ?thesis
  proof (cases "k = ''__proto__'' \<and> counter rc k = None")
    case True
    then have k: "k = ''__proto__''" and c: "counter rc ''__proto__'' = None" by auto
    have "get_entry rc k = EBuiltin ''__proto__''" unfolding k using c by (rule get_entry_proto)
    moreover have "visit rc k = rc" by (simp add: visit_def set_entry_def k c)
    ultimately show ?thesis using \<open>k' = k\<close> by (simp add: positive_def)
  next
    case False
    then show ?thesis using \<open>k' = k\<close>
      by (cases "get_entry rc k")
        (auto simp: positive_def visited_def visit_def get_entry_set_entry)
  qed
qed

lemma unvisited_visit_new:
  "\<not> visited rc k \<Longrightarrow> unvisited spec (visit rc k) = unvisited spec rc - {k}"
  by (auto simp: unvisited_def pos_visit)

lemma unvisited_visit_again:
  "visited rc k \<Longrightarrow> unvisited spec (visit rc k) = unvisited spec rc"
  by (auto simp: unvisited_def pos_visit)

lemma isRef_not_undefined: "isRef v \<Longrightarrow> v \<noteq> JUndefined"
  by (auto simp: isRef_def)

lemma resolved_refkey:
  "byRef L spec r = Inr v \<Longrightarrow> isRef v \<Longrightarrow> ref_key v \<in> refkeys spec"
  using byRef_subvalue [of L spec r v] isRef_not_undefined [of v]
  by (auto simp: refkeys_def)

lemma deref_measure_decreases:
  assumes "byRef L spec (own_prop obj ''$ref'') = Inr resolved" and "isRef resolved"
    and "\<not> (visited rc (ref_key obj) \<and> \<not> fc)"
  shows "deref_measure spec (visit rc (ref_key obj)) resolved False
         < deref_measure spec rc obj fc"
proof -
  let ?k = "ref_key obj"
  have r: "ref_key resolved \<in> refkeys spec"
    using assms(1,2) by (rule resolved_refkey)
  show ?thesis
  proof (cases "visited rc ?k")
    case True
    then have fc using assms(3) by simp
    then show ?thesis
      by (simp add: deref_measure_def unvisited_visit_again [OF True] r)
  next
    case False
    note nv = unvisited_visit_new [OF False, of spec]
    show ?thesis
    proof (cases "?k \<in> refkeys spec")
      case True
      have "\<not> positive rc ?k" using False positive_visited by blast
      then have "?k \<in> unvisited spec rc" using True by (simp add: unvisited_def)
      then have "card (unvisited spec rc - {?k}) < card (unvisited spec rc)"
        by (rule card_Diff1_less [OF finite_unvisited])
      then show ?thesis
        by (simp add: deref_measure_def nv r)
    next
      case False
      then have "unvisited spec rc - {?k} = unvisited spec rc"
        by (auto simp: unvisited_def)
      then show ?thesis using False
        by (simp add: deref_measure_def nv r)
    qed
  qed
qed

subsection \<open>\<open>deref\<close>\<close>

text \<open>
  The result is the value returned or the error thrown, with the counter as the call
  leaves it. The nested call \<^verbatim>\<open>this.deref(resolved)\<close> passes no second argument, so it
  runs with the default \<^verbatim>\<open>forceCircular = false\<close>.
\<close>

function deref ::
  "lib \<Rightarrow> json \<Rightarrow> RefCounter \<Rightarrow> json \<Rightarrow> bool \<Rightarrow> (error + json) \<times> RefCounter" where
  "deref L spec rc obj forceCircular =
     (if isRef obj then
        (case byRef L spec (own_prop obj ''$ref'') of
           Inl e \<Rightarrow> (Inl e, rc)
         | Inr resolved \<Rightarrow>
            (if visited rc (ref_key obj) \<and> \<not> forceCircular
             then (Inr (circular resolved), visit rc (ref_key obj))
             else if isRef resolved then
               (case deref L spec (visit rc (ref_key obj)) resolved False of
                  (Inl e, rc') \<Rightarrow> (Inl e, rc')
                | (Inr res, rc') \<Rightarrow> (Inr res, exitRef rc' resolved))
             else (Inr resolved, visit rc (ref_key obj))))
      else (Inr obj, rc))"
  by pat_completeness auto
termination
  by (relation "measure (\<lambda>(L, spec, rc, obj, fc). deref_measure spec rc obj fc)")
    (auto intro: deref_measure_decreases)

declare deref.simps [simp del]

section \<open>Merging the branches of \<open>allOf\<close> (\<open>mergeAllOf\<close>)\<close>

text \<open>
  \<^verbatim>\<open>mergeAllOf\<close> calls itself on every branch, and nothing bounds the depth: on a
  schema whose \<^verbatim>\<open>allOf\<close> refers back to itself, \<^verbatim>\<open>deref\<close> marks the copy it returns but
  \<^verbatim>\<open>mergeAllOf\<close> merges the copy all the same. The model therefore counts the depth of
  nested calls: \<open>mergeAllOf n\<close> is \<open>None\<close> when a chain of more than \<open>n\<close> nested calls
  is needed, and otherwise the value returned or the error thrown, with the counter as
  the call leaves it.

  The callback of \<^verbatim>\<open>schema.allOf.map\<close>, for one branch: dereference it, read its
  \<^verbatim>\<open>$ref\<close> (\<^verbatim>\<open>subSchema.$ref || undefined\<close>), merge what it resolved to, and push the
  \<^verbatim>\<open>parentRefs\<close> of the result onto those of the receiver. \<open>mergeAllOf_rec\<close> is the
  recursive call \<^verbatim>\<open>this.mergeAllOf(resolved, subRef, forceCircular)\<close>.
\<close>

definition merge_branch ::
  "(RefCounter \<Rightarrow> json \<Rightarrow> json \<Rightarrow> ((error + json) \<times> RefCounter) option) \<Rightarrow>
   lib \<Rightarrow> json \<Rightarrow> bool \<Rightarrow> RefCounter \<Rightarrow> (string \<times> json) list \<Rightarrow> json \<Rightarrow>
   ((error + (json \<times> json) \<times> (string \<times> json) list) \<times> RefCounter) option" where
  "merge_branch mergeAllOf_rec L spec forceCircular rc receiver subSchema =
     (case deref L spec rc subSchema forceCircular of
        (Inl e, rc1) \<Rightarrow> Some (Inl e, rc1)
      | (Inr resolved, rc1) \<Rightarrow>
         (case getprop subSchema ''$ref'' of
            Inl e \<Rightarrow> Some (Inl e, rc1)
          | Inr r \<Rightarrow>
             (case mergeAllOf_rec rc1 resolved (js_or r JUndefined) of
                None \<Rightarrow> None
              | Some (Inl e, rc2) \<Rightarrow> Some (Inl e, rc2)
              | Some (Inr subMerged, rc2) \<Rightarrow>
                 (case getprop subMerged ''parentRefs'' of
                    Inl e \<Rightarrow> Some (Inl e, rc2)
                  | Inr parents \<Rightarrow>
                     (case spread_args (js_or parents (JArr [])) of
                        Inl e \<Rightarrow> Some (Inl e, rc2)
                      | Inr items \<Rightarrow>
                         (case push_parentRefs receiver items of
                            Inl e \<Rightarrow> Some (Inl e, rc2)
                          | Inr receiver' \<Rightarrow>
                             Some (Inr ((js_or r JUndefined, subMerged), receiver'), rc2)))))))"

text \<open>\<^verbatim>\<open>schema.allOf.map(...)\<close>: the callback on every branch, in order.\<close>

fun merge_branches ::
  "(RefCounter \<Rightarrow> json \<Rightarrow> json \<Rightarrow> ((error + json) \<times> RefCounter) option) \<Rightarrow>
   lib \<Rightarrow> json \<Rightarrow> bool \<Rightarrow> RefCounter \<Rightarrow> (string \<times> json) list \<Rightarrow> json list \<Rightarrow>
   ((error + (json \<times> json) list \<times> (string \<times> json) list) \<times> RefCounter) option" where
  "merge_branches mergeAllOf_rec L spec forceCircular rc receiver [] = Some (Inr ([], receiver), rc)"
| "merge_branches mergeAllOf_rec L spec forceCircular rc receiver (subSchema # rest) =
     (case merge_branch mergeAllOf_rec L spec forceCircular rc receiver subSchema of
        None \<Rightarrow> None
      | Some (Inl e, rc1) \<Rightarrow> Some (Inl e, rc1)
      | Some (Inr (entry, receiver1), rc1) \<Rightarrow>
         (case merge_branches mergeAllOf_rec L spec forceCircular rc1 receiver1 rest of
            None \<Rightarrow> None
          | Some (Inl e, rc2) \<Rightarrow> Some (Inl e, rc2)
          | Some (Inr (entries, receiver2), rc2) \<Rightarrow> Some (Inr (entry # entries, receiver2), rc2)))"

text \<open>
  The body of the \<^verbatim>\<open>for\<close> loop, block by block.
  \<^verbatim>\<open>if (subSchema.type !== undefined) receiver.type = subSchema.type\<close>
\<close>

definition merge_type :: "(string \<times> json) list \<Rightarrow> json \<Rightarrow> (string \<times> json) list" where
  "merge_type receiver subSchema =
     (if own_prop subSchema ''type'' \<noteq> JUndefined
      then AList.update ''type'' (own_prop subSchema ''type'') receiver
      else receiver)"

text \<open>
  \<^verbatim>\<open>receiver.properties = { ...(receiver.properties || {}), ...subSchema.properties }\<close>
\<close>

definition merge_properties :: "(string \<times> json) list \<Rightarrow> json \<Rightarrow> (string \<times> json) list" where
  "merge_properties receiver subSchema =
     (if own_prop subSchema ''properties'' \<noteq> JUndefined
      then AList.update ''properties''
             (JObj (assign
                (assign [] (own_enumerable (js_or (field receiver ''properties'') (JObj []))))
                (own_enumerable (own_prop subSchema ''properties''))))
             receiver
      else receiver)"

text \<open>
  \<^verbatim>\<open>receiver.required = (receiver.required || []).concat(subSchema.required)\<close>
\<close>

definition merge_required :: "(string \<times> json) list \<Rightarrow> json \<Rightarrow> error + (string \<times> json) list" where
  "merge_required receiver subSchema =
     (if own_prop subSchema ''required'' \<noteq> JUndefined
      then (case js_concat (js_or (field receiver ''required'') (JArr []))
                  (own_prop subSchema ''required'') of
              Inl e \<Rightarrow> Inl e
            | Inr required \<Rightarrow> Inr (AList.update ''required'' required receiver))
      else Inr receiver)"

text \<open>
  \<^verbatim>\<open>if (subSchemaRef) { receiver.parentRefs.push(subSchemaRef); ... receiver.title = ... }\<close>
\<close>

definition merge_parent ::
  "lib \<Rightarrow> (string \<times> json) list \<Rightarrow> json \<Rightarrow> error + (string \<times> json) list" where
  "merge_parent L receiver subSchemaRef =
     (if truthy subSchemaRef
      then (case push_parentRefs receiver [subSchemaRef] of
              Inl e \<Rightarrow> Inl e
            | Inr receiver' \<Rightarrow>
               Inr (if field receiver' ''title'' = JUndefined \<and> isNamedDefinition L subSchemaRef
                    then AList.update ''title'' (baseName L subSchemaRef) receiver'
                    else receiver'))
      else Inr receiver)"

text \<open>
  One round of the loop: the check of the two types, the three blocks above, then
  \<^verbatim>\<open>receiver = { ...subSchema, ...receiver }\<close>, then the parent reference and the title.
  \<^verbatim>\<open>!==\<close> is read as inequality of values. On strings, numbers, booleans, \<^verbatim>\<open>null\<close> and
  \<^verbatim>\<open>undefined\<close> that is what JavaScript computes. (Two objects or arrays are \<^verbatim>\<open>!==\<close>
  unless they are one and the same object, so JavaScript also throws on two equal but
  separate composite \<^verbatim>\<open>type\<close> values; the declared type of \<^verbatim>\<open>type\<close> is a string.)
\<close>

definition merge_step ::
  "lib \<Rightarrow> json \<Rightarrow> (string \<times> json) list \<Rightarrow> json \<times> json \<Rightarrow> error + (string \<times> json) list" where
  "merge_step L ref receiver entry =
     (case entry of (subSchemaRef, subSchema) \<Rightarrow>
        (case getprop subSchema ''type'' of
           Inl e \<Rightarrow> Inl e
         | Inr subType \<Rightarrow>
            if field receiver ''type'' \<noteq> subType \<and> field receiver ''type'' \<noteq> JUndefined
               \<and> subType \<noteq> JUndefined
            then Inl (UncopatibleTypes ref)
            else (case merge_required (merge_properties (merge_type receiver subSchema) subSchema)
                         subSchema of
                    Inl e \<Rightarrow> Inl e
                  | Inr receiver' \<Rightarrow>
                     merge_parent L (assign (assign [] (own_enumerable subSchema)) receiver')
                       subSchemaRef)))"

text \<open>\<^verbatim>\<open>for (let { $ref: subSchemaRef, schema: subSchema } of allOfSchemas) { ... }\<close>\<close>

fun merge_fold ::
  "lib \<Rightarrow> json \<Rightarrow> (string \<times> json) list \<Rightarrow> (json \<times> json) list \<Rightarrow> error + (string \<times> json) list" where
  "merge_fold L ref receiver [] = Inr receiver"
| "merge_fold L ref receiver (entry # entries) =
     (case merge_step L ref receiver entry of
        Inl e \<Rightarrow> Inl e
      | Inr receiver' \<Rightarrow> merge_fold L ref receiver' entries)"

text \<open>
  \<^verbatim>\<open>if (schema.title === undefined && isNamedDefinition($ref)) receiver.title = ...\<close>
\<close>

definition top_title :: "lib \<Rightarrow> json \<Rightarrow> json \<Rightarrow> (string \<times> json) list \<Rightarrow> (string \<times> json) list" where
  "top_title L schema ref receiver =
     (if own_prop schema ''title'' = JUndefined \<and> isNamedDefinition L ref
      then AList.update ''title'' (baseName L ref) receiver
      else receiver)"

text \<open>\<^verbatim>\<open>{ ...schema, allOf: undefined, parentRefs: [] }\<close>\<close>

definition new_receiver :: "json \<Rightarrow> (string \<times> json) list" where
  "new_receiver schema =
     assign (assign [] (own_enumerable schema))
       [(''allOf'', JUndefined), (''parentRefs'', JArr [])]"

text \<open>
  \<^verbatim>\<open>mergeAllOf(schema, $ref, forceCircular)\<close>. A missing \<^verbatim>\<open>$ref\<close> argument is
  \<open>JUndefined\<close>. \<^verbatim>\<open>map\<close> exists on arrays only.
\<close>

primrec mergeAllOf ::
  "nat \<Rightarrow> lib \<Rightarrow> json \<Rightarrow> bool \<Rightarrow> RefCounter \<Rightarrow> json \<Rightarrow> json \<Rightarrow>
   ((error + json) \<times> RefCounter) option" where
  "mergeAllOf 0 L spec forceCircular rc schema ref = None"
| "mergeAllOf (Suc n) L spec forceCircular rc schema ref =
     (case getprop schema ''allOf'' of
        Inl e \<Rightarrow> Some (Inl e, rc)
      | Inr allOf \<Rightarrow>
         if allOf = JUndefined then Some (Inr schema, rc)
         else (case allOf of
            JArr subSchemas \<Rightarrow>
              (case merge_branches (mergeAllOf n L spec forceCircular) L spec forceCircular rc
                      (new_receiver schema)
                      subSchemas of
                 None \<Rightarrow> None
               | Some (Inl e, rc') \<Rightarrow> Some (Inl e, rc')
               | Some (Inr (allOfSchemas, receiver), rc') \<Rightarrow>
                  (case merge_fold L ref receiver allOfSchemas of
                     Inl e \<Rightarrow> Some (Inl e, rc')
                   | Inr receiver' \<Rightarrow> Some (Inr (JObj (top_title L schema ref receiver')), rc')))
          | _ \<Rightarrow> Some (Inl TypeError, rc)))"

declare mergeAllOf.simps [simp del]

section \<open>Derived definitions (\<open>findDerived\<close>)\<close>




text \<open>\<^verbatim>\<open>'#/components/schemas/' + defName\<close>\<close>

definition def_pointer :: "string \<Rightarrow> string" where
  "def_pointer defName = ''#/components/schemas/'' @ defName"



section \<open>An instance of the collaborators\<close>

text \<open>
  Concrete collaborators, to run the model on concrete documents. Characters are bytes
  here, and \<open>percent_decode\<close> turns every \<^verbatim>\<open>%XX\<close> into the byte it names; like
  \<^verbatim>\<open>decodeURIComponent\<close> it fails on a \<^verbatim>\<open>%\<close> that two hexadecimal digits do not follow.
\<close>

definition hex_digit :: "char \<Rightarrow> nat option" where
  "hex_digit c =
     (let n = of_char c :: nat in
      if 48 \<le> n \<and> n \<le> 57 then Some (n - 48)
      else if 65 \<le> n \<and> n \<le> 70 then Some (n - 55)
      else if 97 \<le> n \<and> n \<le> 102 then Some (n - 87)
      else None)"

fun percent_decode :: "string \<Rightarrow> string option" where
  "percent_decode [] = Some []"
| "percent_decode (c # cs) =
     (if c = CHR ''%'' then
        (case cs of
           h # l # rest \<Rightarrow>
             (case (hex_digit h, hex_digit l) of
                (Some a, Some b) \<Rightarrow> map_option ((#) (char_of (16 * a + b))) (percent_decode rest)
              | _ \<Rightarrow> None)
         | _ \<Rightarrow> None)
      else map_option ((#) c) (percent_decode cs))"

text \<open>
  Modelled from the spec: \<^verbatim>\<open>JsonPointer.parse\<close>, \<^verbatim>\<open>JsonPointer.baseName\<close>
  (\<^verbatim>\<open>utils/JsonPointer\<close>) and \<^verbatim>\<open>isNamedDefinition\<close> (\<^verbatim>\<open>utils/openapi\<close>) are not among
  the sources. A pointer is "a slash-delimited path from the root" that "always begins
  with a fragment marker"; a pointer "names a first-class reusable definition" when it
  is \<^verbatim>\<open>#/components/schemas/\<close> followed by one name, and the base name is its last
  segment.
\<close>

fun split_slash :: "string \<Rightarrow> string list" where
  "split_slash [] = [[]]"
| "split_slash (c # cs) =
     (if c = CHR ''/'' then [] # split_slash cs
      else (case split_slash cs of t # ts \<Rightarrow> (c # t) # ts | [] \<Rightarrow> [[c]]))"

definition parse_pointer :: "string \<Rightarrow> string list option" where
  "parse_pointer pointer =
     (let p = (if take 1 pointer = ''#'' then drop 1 pointer else pointer) in
      if p = [] then Some []
      else if take 1 p = ''/'' then Some (split_slash (drop 1 p))
      else None)"

definition named_definition :: "json \<Rightarrow> bool" where
  "named_definition ref =
     (case ref of
        JStr s \<Rightarrow>
          take 21 s = ''#/components/schemas/'' \<and> drop 21 s \<noteq> [] \<and> CHR ''/'' \<notin> set (drop 21 s)
      | _ \<Rightarrow> False)"

definition base_name :: "json \<Rightarrow> json" where
  "base_name ref =
     (case ref of
        JStr s \<Rightarrow>
          (case parse_pointer s of
             Some ts \<Rightarrow> if ts = [] then JUndefined else JStr (last ts)
           | None \<Rightarrow> JUndefined)
      | _ \<Rightarrow> JUndefined)"

definition std_lib :: lib where
  "std_lib = \<lparr>decodeURIComponent = percent_decode, pointer_tokens = parse_pointer,
              isNamedDefinition = named_definition, baseName = base_name\<rparr>"

section \<open>Notions the properties are stated with\<close>

text \<open>The property names of an object.\<close>

definition keys :: "(string \<times> 'v) list \<Rightarrow> string set" where
  "keys al = fst ` set al"

text \<open>The reference \<^verbatim>\<open>{ $ref: p }\<close>.\<close>

definition ref_to :: "string \<Rightarrow> json" where
  "ref_to p = JObj [(''$ref'', JStr p)]"



text \<open>A document in which \<^verbatim>\<open>#/a\<close> refers to the inline node at \<^verbatim>\<open>#/b\<close>.\<close>

definition doc_chain :: json where
  "doc_chain = JObj [(''openapi'', JStr ''3.0.0''),
     (''a'', JObj [(''$ref'', JStr ''#/b'')]),
     (''b'', JObj [(''type'', JStr ''string'')])]"

text \<open>
  A document with a base definition, a definition that extends it, one whose branches
  disagree on the type, one that has the shape of the base without referring to it, and
  one that extends the extension.
\<close>

definition base_schema :: json where
  "base_schema = JObj [(''type'', JStr ''object''),
     (''properties'', JObj [(''a'', JObj [])]), (''required'', JArr [JStr ''a''])]"

definition extra_schema :: json where
  "extra_schema = JObj [(''properties'', JObj [(''b'', JObj [])]), (''required'', JArr [JStr ''b''])]"

definition child_schema :: json where
  "child_schema = JObj [(''allOf'', JArr [ref_to ''#/components/schemas/Base'', extra_schema])]"

definition clash_schema :: json where
  "clash_schema = JObj [(''allOf'', JArr [JObj [(''type'', JStr ''object'')], JObj [(''type'', JStr ''string'')]])]"

definition grand_schema :: json where
  "grand_schema = JObj [(''allOf'', JArr [ref_to ''#/components/schemas/Child''])]"

definition doc_merge :: json where
  "doc_merge = JObj [(''openapi'', JStr ''3.0.0''),
     (''components'', JObj [(''schemas'', JObj [
        (''Base'', base_schema),
        (''Child'', child_schema),
        (''Clash'', clash_schema),
        (''Twin'', base_schema),
        (''Grand'', grand_schema)])])]"

text \<open>
  What the callback of \<^verbatim>\<open>map\<close> pushes for a merged branch: the elements of
  \<^verbatim>\<open>subMerged.parentRefs || []\<close>.
\<close>

definition parent_items :: "json \<Rightarrow> json list" where
  "parent_items subMerged =
     (case spread_args (js_or (own_prop subMerged ''parentRefs'') (JArr [])) of
        Inl e \<Rightarrow> []
      | Inr items \<Rightarrow> items)"

text \<open>
  The pointers of the branches that are references, in order: \<^verbatim>\<open>subSchema.$ref\<close> where
  it is truthy.
\<close>

definition own_pointers :: "json list \<Rightarrow> json list" where
  "own_pointers subSchemas = filter truthy (map (\<lambda>sub. own_prop sub ''$ref'') subSchemas)"




text \<open>
  A schema that has a description of its own and two inline branches: both have
  \<^verbatim>\<open>properties\<close> with the key \<^verbatim>\<open>a\<close>, \<^verbatim>\<open>required\<close> with \<^verbatim>\<open>a\<close>, and a description.
\<close>

definition first_branch :: json where
  "first_branch = JObj [(''type'', JStr ''object''),
     (''properties'', JObj [(''a'', JObj [(''type'', JStr ''string'')]), (''b'', JObj [])]),
     (''required'', JArr [JStr ''a'']),
     (''description'', JStr ''first''), (''format'', JStr ''f'')]"

definition second_branch :: json where
  "second_branch = JObj [(''properties'', JObj [(''a'', JObj [(''type'', JStr ''number'')])]),
     (''required'', JArr [JStr ''a'']), (''description'', JStr ''second'')]"

definition composed_schema :: json where
  "composed_schema = JObj [(''description'', JStr ''own''),
     (''allOf'', JArr [first_branch, second_branch])]"





section \<open>The same operations on a store\<close>

text \<open>
  Whether an operation writes into the document cannot be read off values that have no
  identity. Here every object and every array is a cell of a store, a value refers to
  it by its address, \<^verbatim>\<open>!==\<close> on two references compares addresses, and an assignment
  to a property or a \<^verbatim>\<open>push\<close> rewrites the cell in place. A new object or array gets the
  next free address.
\<close>

datatype val = VUndefined | VNull | VBool bool | VNum int | VStr string | VRef nat

datatype cell = Object "(string \<times> val) list" | Array "val list"

type_synonym store = "cell list"

datatype thrown = ThrownTypeError | ThrownURIError | ThrownUncopatibleTypes val

text \<open>
  The collaborators, on store values. \<open>to_string\<close> is \<^verbatim>\<open>String(v)\<close> for a value that
  is not a string: it reads the store and writes nothing.
\<close>

record slib =
  s_decodeURIComponent :: "string \<Rightarrow> string option"
  s_pointer_tokens :: "string \<Rightarrow> string list option"
  s_isNamedDefinition :: "val \<Rightarrow> bool"
  s_baseName :: "val \<Rightarrow> val"
  s_to_string :: "store \<Rightarrow> val \<Rightarrow> string"

fun truthy_s :: "val \<Rightarrow> bool" where
  "truthy_s VUndefined = False"
| "truthy_s VNull = False"
| "truthy_s (VBool b) = b"
| "truthy_s (VNum n) = (n \<noteq> 0)"
| "truthy_s (VStr s) = (s \<noteq> [])"
| "truthy_s (VRef a) = True"

definition cell_at :: "store \<Rightarrow> val \<Rightarrow> cell option" where
  "cell_at h v = (case v of VRef a \<Rightarrow> if a < length h then Some (h ! a) else None | _ \<Rightarrow> None)"

text \<open>\<^verbatim>\<open>new\<close>: the object or array is put at the end of the store.\<close>

definition alloc :: "store \<Rightarrow> cell \<Rightarrow> val \<times> store" where
  "alloc h c = (VRef (length h), h @ [c])"

definition field_s :: "(string \<times> val) list \<Rightarrow> string \<Rightarrow> val" where
  "field_s kvs k = (case map_of kvs k of None \<Rightarrow> VUndefined | Some v \<Rightarrow> v)"

definition own_enumerable_s :: "store \<Rightarrow> val \<Rightarrow> (string \<times> val) list" where
  "own_enumerable_s h v =
     (case v of
        VStr s \<Rightarrow> zip (map show_nat [0..<length s]) (map (\<lambda>c. VStr [c]) s)
      | _ \<Rightarrow>
        (case cell_at h v of
           Some (Object kvs) \<Rightarrow> kvs
         | Some (Array xs) \<Rightarrow> zip (map show_nat [0..<length xs]) xs
         | None \<Rightarrow> []))"

definition own_prop_s :: "store \<Rightarrow> val \<Rightarrow> string \<Rightarrow> val" where
  "own_prop_s h v k = (case cell_at h v of Some (Object kvs) \<Rightarrow> field_s kvs k | _ \<Rightarrow> VUndefined)"

definition getprop_s :: "store \<Rightarrow> val \<Rightarrow> string \<Rightarrow> thrown + val" where
  "getprop_s h v k =
     (if v = VUndefined \<or> v = VNull then Inl ThrownTypeError else Inr (own_prop_s h v k))"

text \<open>\<^verbatim>\<open>a || b\<close> where \<^verbatim>\<open>b\<close> is a literal \<^verbatim>\<open>{}\<close> or \<^verbatim>\<open>[]\<close>: created only when \<^verbatim>\<open>a\<close> is falsy.\<close>

definition or_new :: "store \<Rightarrow> val \<Rightarrow> cell \<Rightarrow> val \<times> store" where
  "or_new h a c = (if truthy_s a then (a, h) else alloc h c)"

text \<open>\<^verbatim>\<open>o.k = v\<close> on an object: its cell is rewritten.\<close>

definition set_prop :: "store \<Rightarrow> val \<Rightarrow> string \<Rightarrow> val \<Rightarrow> store" where
  "set_prop h obj k v =
     (case obj of
        VRef a \<Rightarrow>
          (case cell_at h obj of
             Some (Object kvs) \<Rightarrow> h[a := Object (AList.update k v kvs)]
           | _ \<Rightarrow> h)
      | _ \<Rightarrow> h)"

text \<open>\<^verbatim>\<open>a.push(...items)\<close>: the cell of the array is rewritten.\<close>

definition push_s :: "store \<Rightarrow> val \<Rightarrow> val list \<Rightarrow> thrown + store" where
  "push_s h arr items =
     (case arr of
        VRef a \<Rightarrow>
          (case cell_at h arr of
             Some (Array xs) \<Rightarrow> Inr (h[a := Array (xs @ items)])
           | _ \<Rightarrow> Inl ThrownTypeError)
      | _ \<Rightarrow> Inl ThrownTypeError)"

definition spread_args_s :: "store \<Rightarrow> val \<Rightarrow> thrown + val list" where
  "spread_args_s h v =
     (case v of
        VStr s \<Rightarrow> Inr (map (\<lambda>c. VStr [c]) s)
      | _ \<Rightarrow> (case cell_at h v of Some (Array xs) \<Rightarrow> Inr xs | _ \<Rightarrow> Inl ThrownTypeError))"

text \<open>\<^verbatim>\<open>a.concat(b)\<close>: a new array, or a string.\<close>

definition concat_s :: "slib \<Rightarrow> store \<Rightarrow> val \<Rightarrow> val \<Rightarrow> thrown + val \<times> store" where
  "concat_s L h a b =
     (case cell_at h a of
        Some (Array xs) \<Rightarrow>
          (case cell_at h b of
             Some (Array ys) \<Rightarrow> Inr (alloc h (Array (xs @ ys)))
           | _ \<Rightarrow> Inr (alloc h (Array (xs @ [b]))))
      | _ \<Rightarrow>
          (case a of
             VStr s \<Rightarrow> Inr (VStr (s @ (case b of VStr t \<Rightarrow> t | _ \<Rightarrow> s_to_string L h b)), h)
           | _ \<Rightarrow> Inl ThrownTypeError))"

fun walk_s :: "store \<Rightarrow> val \<Rightarrow> string list \<Rightarrow> val option" where
  "walk_s h v [] = Some v"
| "walk_s h v (t # ts) =
     (case cell_at h v of
        Some (Object kvs) \<Rightarrow>
          (case map_of kvs t of None \<Rightarrow> None | Some w \<Rightarrow> walk_s h w ts)
      | Some (Array xs) \<Rightarrow>
          (case find (\<lambda>i. show_nat i = t) [0..<length xs] of
             None \<Rightarrow> None
           | Some i \<Rightarrow> walk_s h (xs ! i) ts)
      | None \<Rightarrow> None)"

definition byRef_s :: "slib \<Rightarrow> store \<Rightarrow> val \<Rightarrow> val \<Rightarrow> thrown + val" where
  "byRef_s L h spec ref =
     (if spec = VUndefined then Inr VUndefined
      else (case ref of
          VStr s \<Rightarrow>
            (case s_decodeURIComponent L (if take 1 s \<noteq> ''#'' then ''#'' @ s else s) of
               None \<Rightarrow> Inl ThrownURIError
             | Some pointer \<Rightarrow>
                (case s_pointer_tokens L pointer of
                   None \<Rightarrow> Inr VUndefined
                 | Some ts \<Rightarrow>
                    (case walk_s h spec ts of None \<Rightarrow> Inr VUndefined | Some res \<Rightarrow> Inr res)))
        | _ \<Rightarrow> Inl ThrownTypeError))"

definition isRef_s :: "store \<Rightarrow> val \<Rightarrow> bool" where
  "isRef_s h obj =
     (if \<not> truthy_s obj then False
      else own_prop_s h obj ''$ref'' \<noteq> VUndefined \<and> own_prop_s h obj ''$ref'' \<noteq> VNull)"

definition ref_key_s :: "slib \<Rightarrow> store \<Rightarrow> val \<Rightarrow> string" where
  "ref_key_s L h obj =
     (case own_prop_s h obj ''$ref'' of VStr s \<Rightarrow> s | r \<Rightarrow> s_to_string L h r)"

definition exitRef_s :: "slib \<Rightarrow> store \<Rightarrow> RefCounter \<Rightarrow> val \<Rightarrow> RefCounter" where
  "exitRef_s L h rc ref = (if \<not> isRef_s h ref then rc else exit rc (ref_key_s L h ref))"

text \<open>\<^verbatim>\<open>Object.assign({}, resolved, { 'x-circular-ref': true })\<close>: a new object.\<close>

definition circular_s :: "store \<Rightarrow> val \<Rightarrow> val \<times> store" where
  "circular_s h resolved =
     alloc h (Object (assign (assign [] (own_enumerable_s h resolved))
                        [(''x-circular-ref'', VBool True)]))"

definition refkeys_s :: "slib \<Rightarrow> store \<Rightarrow> string set" where
  "refkeys_s L h = (\<lambda>a. ref_key_s L h (VRef a)) ` {a. a < length h \<and> isRef_s h (VRef a)}"

definition unvisited_s :: "slib \<Rightarrow> store \<Rightarrow> RefCounter \<Rightarrow> string set" where
  "unvisited_s L h rc = {k \<in> refkeys_s L h. \<not> positive rc k}"

lemma isRef_s_address: "isRef_s h v \<Longrightarrow> \<exists>a. v = VRef a \<and> a < length h"
  by (cases v) (auto simp: isRef_s_def own_prop_s_def cell_at_def split: if_splits)

lemma isRef_s_refkey: "isRef_s h v \<Longrightarrow> ref_key_s L h v \<in> refkeys_s L h"
  using isRef_s_address [of h v] by (auto simp: refkeys_s_def)

lemma finite_unvisited_s: "finite (unvisited_s L h rc)"
  by (simp add: unvisited_s_def refkeys_s_def)

lemma deref_s_decreases:
  assumes "isRef_s h obj" and "\<not> (visited rc (ref_key_s L h obj) \<and> \<not> fc)"
  shows "2 * card (unvisited_s L h (visit rc (ref_key_s L h obj))) + (if False then 1 else 0)
         < 2 * card (unvisited_s L h rc) + (if fc then 1 else (0::nat))"
proof (cases "visited rc (ref_key_s L h obj)")
  case True
  then have "unvisited_s L h (visit rc (ref_key_s L h obj)) = unvisited_s L h rc"
    by (auto simp: unvisited_s_def pos_visit)
  then show ?thesis using True assms(2) by simp
next
  case False
  let ?k = "ref_key_s L h obj"
  have "unvisited_s L h (visit rc ?k) = unvisited_s L h rc - {?k}"
    using False by (auto simp: unvisited_s_def pos_visit)
  moreover have "?k \<in> unvisited_s L h rc"
    using False isRef_s_refkey [OF assms(1), of L] positive_visited [of rc ?k]
    by (auto simp: unvisited_s_def)
  ultimately have "card (unvisited_s L h (visit rc ?k)) < card (unvisited_s L h rc)"
    using card_Diff1_less [OF finite_unvisited_s, of ?k L h rc] by simp
  then show ?thesis by simp
qed

function deref_s ::
  "slib \<Rightarrow> val \<Rightarrow> store \<Rightarrow> RefCounter \<Rightarrow> val \<Rightarrow> bool \<Rightarrow> (thrown + val) \<times> store \<times> RefCounter" where
  "deref_s L spec h rc obj forceCircular =
     (if isRef_s h obj then
        (case byRef_s L h spec (own_prop_s h obj ''$ref'') of
           Inl e \<Rightarrow> (Inl e, h, rc)
         | Inr resolved \<Rightarrow>
            (if visited rc (ref_key_s L h obj) \<and> \<not> forceCircular
             then (case circular_s h resolved of
                     (copy, h') \<Rightarrow> (Inr copy, h', visit rc (ref_key_s L h obj)))
             else if isRef_s h resolved then
               (case deref_s L spec h (visit rc (ref_key_s L h obj)) resolved False of
                  (Inl e, h', rc') \<Rightarrow> (Inl e, h', rc')
                | (Inr res, h', rc') \<Rightarrow> (Inr res, h', exitRef_s L h' rc' resolved))
             else (Inr resolved, h, visit rc (ref_key_s L h obj))))
      else (Inr obj, h, rc))"
  by pat_completeness auto
termination
  by (relation "measure (\<lambda>(L, spec, h, rc, obj, fc).
        2 * card (unvisited_s L h rc) + (if fc then 1 else 0))")
    (use deref_s_decreases in \<open>auto\<close>)

declare deref_s.simps [simp del]


text \<open>
  The callback of \<^verbatim>\<open>schema.allOf.map\<close>. \<^verbatim>\<open>receiver\<close> is the object the closure holds;
  \<^verbatim>\<open>receiver.parentRefs\<close> is read from its cell, and the array found there is the one
  \<^verbatim>\<open>push\<close> rewrites.
\<close>

definition merge_branch_s ::
  "(store \<Rightarrow> RefCounter \<Rightarrow> val \<Rightarrow> val \<Rightarrow> ((thrown + val) \<times> store \<times> RefCounter) option) \<Rightarrow>
   slib \<Rightarrow> val \<Rightarrow> bool \<Rightarrow> store \<Rightarrow> RefCounter \<Rightarrow> val \<Rightarrow> val \<Rightarrow>
   ((thrown + val \<times> val) \<times> store \<times> RefCounter) option" where
  "merge_branch_s mergeAllOf_rec L spec forceCircular h rc receiver subSchema =
     (case deref_s L spec h rc subSchema forceCircular of
        (Inl e, h1, rc1) \<Rightarrow> Some (Inl e, h1, rc1)
      | (Inr resolved, h1, rc1) \<Rightarrow>
         (case getprop_s h1 subSchema ''$ref'' of
            Inl e \<Rightarrow> Some (Inl e, h1, rc1)
          | Inr r \<Rightarrow>
             (case mergeAllOf_rec h1 rc1 resolved (if truthy_s r then r else VUndefined) of
                None \<Rightarrow> None
              | Some (Inl e, h2, rc2) \<Rightarrow> Some (Inl e, h2, rc2)
              | Some (Inr subMerged, h2, rc2) \<Rightarrow>
                 (case getprop_s h2 subMerged ''parentRefs'' of
                    Inl e \<Rightarrow> Some (Inl e, h2, rc2)
                  | Inr parents \<Rightarrow>
                     (case or_new h2 parents (Array []) of
                        (arg, h3) \<Rightarrow>
                          (case spread_args_s h3 arg of
                             Inl e \<Rightarrow> Some (Inl e, h3, rc2)
                           | Inr items \<Rightarrow>
                              (case push_s h3 (own_prop_s h3 receiver ''parentRefs'') items of
                                 Inl e \<Rightarrow> Some (Inl e, h3, rc2)
                               | Inr h4 \<Rightarrow>
                                  Some (Inr (if truthy_s r then r else VUndefined, subMerged),
                                        h4, rc2))))))))"

fun merge_branches_s ::
  "(store \<Rightarrow> RefCounter \<Rightarrow> val \<Rightarrow> val \<Rightarrow> ((thrown + val) \<times> store \<times> RefCounter) option) \<Rightarrow>
   slib \<Rightarrow> val \<Rightarrow> bool \<Rightarrow> store \<Rightarrow> RefCounter \<Rightarrow> val \<Rightarrow> val list \<Rightarrow>
   ((thrown + (val \<times> val) list) \<times> store \<times> RefCounter) option" where
  "merge_branches_s mergeAllOf_rec L spec forceCircular h rc receiver [] = Some (Inr [], h, rc)"
| "merge_branches_s mergeAllOf_rec L spec forceCircular h rc receiver (subSchema # rest) =
     (case merge_branch_s mergeAllOf_rec L spec forceCircular h rc receiver subSchema of
        None \<Rightarrow> None
      | Some (Inl e, h1, rc1) \<Rightarrow> Some (Inl e, h1, rc1)
      | Some (Inr entry, h1, rc1) \<Rightarrow>
         (case merge_branches_s mergeAllOf_rec L spec forceCircular h1 rc1 receiver rest of
            None \<Rightarrow> None
          | Some (Inl e, h2, rc2) \<Rightarrow> Some (Inl e, h2, rc2)
          | Some (Inr entries, h2, rc2) \<Rightarrow> Some (Inr (entry # entries), h2, rc2)))"

text \<open>The blocks of the loop body; each writes the cell of \<^verbatim>\<open>receiver\<close>.\<close>

definition merge_type_s :: "store \<Rightarrow> val \<Rightarrow> val \<Rightarrow> store" where
  "merge_type_s h receiver subSchema =
     (if own_prop_s h subSchema ''type'' \<noteq> VUndefined
      then set_prop h receiver ''type'' (own_prop_s h subSchema ''type'')
      else h)"

definition merge_properties_s :: "store \<Rightarrow> val \<Rightarrow> val \<Rightarrow> store" where
  "merge_properties_s h receiver subSchema =
     (if own_prop_s h subSchema ''properties'' \<noteq> VUndefined
      then (case or_new h (own_prop_s h receiver ''properties'') (Object []) of
              (base, h1) \<Rightarrow>
                (case alloc h1 (Object (assign (assign [] (own_enumerable_s h1 base))
                                  (own_enumerable_s h1 (own_prop_s h1 subSchema ''properties'')))) of
                   (properties, h2) \<Rightarrow> set_prop h2 receiver ''properties'' properties))
      else h)"

definition merge_required_s :: "slib \<Rightarrow> store \<Rightarrow> val \<Rightarrow> val \<Rightarrow> thrown option \<times> store" where
  "merge_required_s L h receiver subSchema =
     (if own_prop_s h subSchema ''required'' \<noteq> VUndefined
      then (case or_new h (own_prop_s h receiver ''required'') (Array []) of
              (base, h1) \<Rightarrow>
                (case concat_s L h1 base (own_prop_s h1 subSchema ''required'') of
                   Inl e \<Rightarrow> (Some e, h1)
                 | Inr (required, h2) \<Rightarrow> (None, set_prop h2 receiver ''required'' required)))
      else (None, h))"

definition merge_parent_s :: "slib \<Rightarrow> store \<Rightarrow> val \<Rightarrow> val \<Rightarrow> thrown + store" where
  "merge_parent_s L h receiver subSchemaRef =
     (if truthy_s subSchemaRef
      then (case push_s h (own_prop_s h receiver ''parentRefs'') [subSchemaRef] of
              Inl e \<Rightarrow> Inl e
            | Inr h1 \<Rightarrow>
               Inr (if own_prop_s h1 receiver ''title'' = VUndefined
                       \<and> s_isNamedDefinition L subSchemaRef
                    then set_prop h1 receiver ''title'' (s_baseName L subSchemaRef)
                    else h1))
      else Inr h)"

text \<open>
  One round of the loop. The store comes back also when the round throws: what was
  written before the throw stays written. \<^verbatim>\<open>{ ...subSchema, ...receiver }\<close> is a new
  object, and the variable \<^verbatim>\<open>receiver\<close> refers to it from then on.
\<close>

definition merge_step_s ::
  "slib \<Rightarrow> val \<Rightarrow> store \<Rightarrow> val \<Rightarrow> val \<times> val \<Rightarrow> (thrown + val) \<times> store" where
  "merge_step_s L ref h receiver entry =
     (case entry of (subSchemaRef, subSchema) \<Rightarrow>
        (case getprop_s h subSchema ''type'' of
           Inl e \<Rightarrow> (Inl e, h)
         | Inr subType \<Rightarrow>
            if own_prop_s h receiver ''type'' \<noteq> subType
               \<and> own_prop_s h receiver ''type'' \<noteq> VUndefined \<and> subType \<noteq> VUndefined
            then (Inl (ThrownUncopatibleTypes ref), h)
            else (case merge_required_s L
                         (merge_properties_s (merge_type_s h receiver subSchema) receiver subSchema)
                         receiver subSchema of
                    (Some e, h3) \<Rightarrow> (Inl e, h3)
                  | (None, h3) \<Rightarrow>
                     (case alloc h3 (Object (assign (assign [] (own_enumerable_s h3 subSchema))
                                       (own_enumerable_s h3 receiver))) of
                        (receiver', h4) \<Rightarrow>
                          (case merge_parent_s L h4 receiver' subSchemaRef of
                             Inl e \<Rightarrow> (Inl e, h4)
                           | Inr h5 \<Rightarrow> (Inr receiver', h5))))))"

fun merge_fold_s ::
  "slib \<Rightarrow> val \<Rightarrow> store \<Rightarrow> val \<Rightarrow> (val \<times> val) list \<Rightarrow> (thrown + val) \<times> store" where
  "merge_fold_s L ref h receiver [] = (Inr receiver, h)"
| "merge_fold_s L ref h receiver (entry # entries) =
     (case merge_step_s L ref h receiver entry of
        (Inl e, h1) \<Rightarrow> (Inl e, h1)
      | (Inr receiver', h1) \<Rightarrow> merge_fold_s L ref h1 receiver' entries)"

definition top_title_s :: "slib \<Rightarrow> store \<Rightarrow> val \<Rightarrow> val \<Rightarrow> val \<Rightarrow> store" where
  "top_title_s L h schema ref receiver =
     (if own_prop_s h schema ''title'' = VUndefined \<and> s_isNamedDefinition L ref
      then set_prop h receiver ''title'' (s_baseName L ref)
      else h)"

text \<open>
  \<^verbatim>\<open>{ ...schema, allOf: undefined, parentRefs: [] }\<close>: a new array and a new object that
  holds it.
\<close>

definition new_receiver_s :: "store \<Rightarrow> val \<Rightarrow> val \<times> store" where
  "new_receiver_s h schema =
     (case alloc h (Array []) of
        (parentRefs, h1) \<Rightarrow>
          alloc h1 (Object (assign (assign [] (own_enumerable_s h1 schema))
                      [(''allOf'', VUndefined), (''parentRefs'', parentRefs)])))"

primrec mergeAllOf_s ::
  "nat \<Rightarrow> slib \<Rightarrow> val \<Rightarrow> bool \<Rightarrow> store \<Rightarrow> RefCounter \<Rightarrow> val \<Rightarrow> val \<Rightarrow>
   ((thrown + val) \<times> store \<times> RefCounter) option" where
  "mergeAllOf_s 0 L spec forceCircular h rc schema ref = None"
| "mergeAllOf_s (Suc n) L spec forceCircular h rc schema ref =
     (case getprop_s h schema ''allOf'' of
        Inl e \<Rightarrow> Some (Inl e, h, rc)
      | Inr allOf \<Rightarrow>
         if allOf = VUndefined then Some (Inr schema, h, rc)
         else (case new_receiver_s h schema of
            (receiver, h1) \<Rightarrow>
              (case cell_at h1 allOf of
                 Some (Array subSchemas) \<Rightarrow>
                   (case merge_branches_s (mergeAllOf_s n L spec forceCircular) L spec forceCircular
                           h1 rc receiver subSchemas of
                      None \<Rightarrow> None
                    | Some (Inl e, h2, rc') \<Rightarrow> Some (Inl e, h2, rc')
                    | Some (Inr allOfSchemas, h2, rc') \<Rightarrow>
                       (case merge_fold_s L ref h2 receiver allOfSchemas of
                          (Inl e, h3) \<Rightarrow> Some (Inl e, h3, rc')
                        | (Inr receiver', h3) \<Rightarrow>
                           Some (Inr receiver', top_title_s L h3 schema ref receiver', rc')))
               | _ \<Rightarrow> Some (Inl ThrownTypeError, h1, rc))))"

declare mergeAllOf_s.simps [simp del]

text \<open>\<open>findDerived\<close>: \<^verbatim>\<open>res\<close> is a new object, and every entry is written into its cell.\<close>

definition schemas_of_s :: "store \<Rightarrow> val \<Rightarrow> thrown + val \<times> store" where
  "schemas_of_s h spec =
     (case getprop_s h spec ''components'' of
        Inl e \<Rightarrow> Inl e
      | Inr components \<Rightarrow>
         Inr (or_new h (if truthy_s components then own_prop_s h components ''schemas''
                        else components) (Object [])))"

fun find_ref_s :: "store \<Rightarrow> string list \<Rightarrow> val list \<Rightarrow> thrown + val" where
  "find_ref_s h refs [] = Inr VUndefined"
| "find_ref_s h refs (obj # objs) =
     (case getprop_s h obj ''$ref'' of
        Inl e \<Rightarrow> Inl e
      | Inr r \<Rightarrow>
         if r \<noteq> VUndefined \<and> r \<in> VStr ` set refs then Inr obj else find_ref_s h refs objs)"

definition is_derived_s :: "store \<Rightarrow> string list \<Rightarrow> val \<Rightarrow> thrown + bool" where
  "is_derived_s h refs def =
     (case getprop_s h def ''allOf'' of
        Inl e \<Rightarrow> Inl e
      | Inr allOf \<Rightarrow>
         if allOf = VUndefined then Inr False
         else (case cell_at h allOf of
            Some (Array objs) \<Rightarrow>
              (case find_ref_s h refs objs of Inl e \<Rightarrow> Inl e | Inr found \<Rightarrow> Inr (truthy_s found))
          | _ \<Rightarrow> Inl ThrownTypeError))"

fun findDerived_loop_s ::
  "slib \<Rightarrow> val \<Rightarrow> string list \<Rightarrow> store \<Rightarrow> RefCounter \<Rightarrow> val \<Rightarrow> (string \<times> val) list \<Rightarrow>
   (thrown + val) \<times> store \<times> RefCounter" where
  "findDerived_loop_s L spec refs h rc res [] = (Inr res, h, rc)"
| "findDerived_loop_s L spec refs h rc res ((defName, schema) # rest) =
     (case deref_s L spec h rc schema False of
        (Inl e, h1, rc1) \<Rightarrow> (Inl e, h1, rc1)
      | (Inr def, h1, rc1) \<Rightarrow>
         (case is_derived_s h1 refs def of
            Inl e \<Rightarrow> (Inl e, h1, rc1)
          | Inr derived \<Rightarrow>
             findDerived_loop_s L spec refs
               (if derived then set_prop h1 res (def_pointer defName) (VStr defName) else h1)
               rc1 res rest))"

definition findDerived_s ::
  "slib \<Rightarrow> val \<Rightarrow> store \<Rightarrow> RefCounter \<Rightarrow> string list \<Rightarrow> (thrown + val) \<times> store \<times> RefCounter" where
  "findDerived_s L spec h rc refs =
     (case alloc h (Object []) of
        (res, h1) \<Rightarrow>
          (case schemas_of_s h1 spec of
             Inl e \<Rightarrow> (Inl e, h1, rc)
           | Inr (schemas, h2) \<Rightarrow>
              findDerived_loop_s L spec refs h2 rc res (own_enumerable_s h2 schemas)))"


text \<open>
  Every cell of \<open>h\<close> is still in \<open>h'\<close>, at its address and with its content: nothing
  that was in the store has been written.
\<close>

definition unchanged :: "store \<Rightarrow> store \<Rightarrow> bool" where
  "unchanged h h' \<longleftrightarrow> take (length h) h' = h"

text \<open>A value that is not a reference into \<open>h\<close>: a primitive, or a cell created since.\<close>

definition created_since :: "store \<Rightarrow> val \<Rightarrow> bool" where
  "created_since h v = (case v of VRef a \<Rightarrow> length h \<le> a | _ \<Rightarrow> True)"

text \<open>
  What \<open>mergeAllOf\<close> keeps true of its receiver, \<open>h0\<close> being the store the call
  started from: the receiver is an object created since, and its \<^verbatim>\<open>parentRefs\<close> is a
  reference created since.
\<close>

definition receiver_ok :: "store \<Rightarrow> store \<Rightarrow> val \<Rightarrow> bool" where
  "receiver_ok h0 h receiver \<longleftrightarrow>
     (case receiver of
        VRef a \<Rightarrow>
          length h0 \<le> a \<and> a < length h \<and>
          (case h ! a of
             Object kvs \<Rightarrow>
               distinct (map fst kvs) \<and>
               (case field_s kvs ''parentRefs'' of
                  VRef p \<Rightarrow> length h0 \<le> p \<and> p < length h
                | _ \<Rightarrow> False)
           | Array xs \<Rightarrow> False)
      | _ \<Rightarrow> False)"


text \<open>
  A sequence of calls made on one parser. A call that throws leaves the store and the
  counter as they were when it threw, and the next call goes on from there.
\<close>

datatype operation = Deref val bool | MergeAllOf val val bool | FindDerived "string list"

definition run_op ::
  "nat \<Rightarrow> slib \<Rightarrow> val \<Rightarrow> operation \<Rightarrow> store \<Rightarrow> RefCounter \<Rightarrow>
   ((thrown + val) \<times> store \<times> RefCounter) option" where
  "run_op n L spec call h rc =
     (case call of
        Deref obj forceCircular \<Rightarrow> Some (deref_s L spec h rc obj forceCircular)
      | MergeAllOf schema ref forceCircular \<Rightarrow> mergeAllOf_s n L spec forceCircular h rc schema ref
      | FindDerived refs \<Rightarrow> Some (findDerived_s L spec h rc refs))"

fun run_ops ::
  "nat \<Rightarrow> slib \<Rightarrow> val \<Rightarrow> operation list \<Rightarrow> store \<Rightarrow> RefCounter \<Rightarrow>
   ((thrown + val) list \<times> store \<times> RefCounter) option" where
  "run_ops n L spec [] h rc = Some ([], h, rc)"
| "run_ops n L spec (call # calls) h rc =
     (case run_op n L spec call h rc of
        None \<Rightarrow> None
      | Some (res, h1, rc1) \<Rightarrow>
         (case run_ops n L spec calls h1 rc1 of
            None \<Rightarrow> None
          | Some (outs, h2, rc2) \<Rightarrow> Some (res # outs, h2, rc2)))"

text \<open>
  The instance of the collaborators on store values. Here a reference is printed the
  way an object is.
\<close>

definition to_string_s :: "store \<Rightarrow> val \<Rightarrow> string" where
  "to_string_s h v =
     (case v of
        VUndefined \<Rightarrow> ''undefined''
      | VNull \<Rightarrow> ''null''
      | VBool b \<Rightarrow> (if b then ''true'' else ''false'')
      | VNum n \<Rightarrow> show_int n
      | VStr s \<Rightarrow> s
      | VRef a \<Rightarrow> ''[object Object]'')"

definition std_slib :: slib where
  "std_slib =
     \<lparr>s_decodeURIComponent = percent_decode, s_pointer_tokens = parse_pointer,
      s_isNamedDefinition = (\<lambda>v. case v of VStr s \<Rightarrow> named_definition (JStr s) | _ \<Rightarrow> False),
      s_baseName = (\<lambda>v. case v of
                      VStr s \<Rightarrow> (case base_name (JStr s) of JStr b \<Rightarrow> VStr b | _ \<Rightarrow> VUndefined)
                    | _ \<Rightarrow> VUndefined),
      s_to_string = to_string_s\<rparr>"

text \<open>
  A document in a store: the root is at address 0, \<open>Base\<close> at 3, \<open>Child\<close> at 4; the
  branches of \<open>Child\<close> are the reference at 6 and the schema at 7.
\<close>

definition doc_store :: store where
  "doc_store =
     [Object [(''components'', VRef 1)],
      Object [(''schemas'', VRef 2)],
      Object [(''Base'', VRef 3), (''Child'', VRef 4)],
      Object [(''type'', VStr ''object''), (''required'', VRef 8)],
      Object [(''allOf'', VRef 5)],
      Array [VRef 6, VRef 7],
      Object [(''$ref'', VStr ''#/components/schemas/Base'')],
      Object [(''type'', VStr ''object''), (''properties'', VRef 9), (''required'', VRef 10)],
      Array [VStr ''id''],
      Object [(''name'', VRef 11)],
      Array [VStr ''name''],
      Object [(''type'', VStr ''string'')]]"

definition doc_calls :: "operation list" where
  "doc_calls =
     [Deref (VRef 6) False,
      Deref (VRef 6) False,
      MergeAllOf (VRef 4) (VStr ''#/components/schemas/Child'') False,
      MergeAllOf (VRef 4) (VStr ''#/components/schemas/Child'') True,
      FindDerived [''#/components/schemas/Base'']]"


section \<open>Properties of the reference counter\<close>

text \<open>A pointer that begins with the fragment marker is not a member name.\<close>

lemma fragment_not_member: "take 1 p = ''#'' \<Longrightarrow> p \<notin> set prototype_members"
  by (auto simp: prototype_members_def)

lemma logical_apply_call:
  assumes "p \<notin> set prototype_members" and "logical rc p = Some (int (d p))"
  shows "logical (apply_call rc c) p = Some (int (spec_depth d c p))"
proof -
  from assms(1) have np: "p \<noteq> ''__proto__''" by (auto simp: prototype_members_def)
  from assms(2) consider "get_entry rc p = EUndefined" "d p = 0"
    | "get_entry rc p = ENum (int (d p))"
    by (cases "get_entry rc p") (auto simp: logical_def)
  note entry = this
  show ?thesis
  proof (cases c)
    case (Visit k)
    show ?thesis
    proof (cases "k = p")
      case True
      from entry show ?thesis
        by cases (simp_all add: Visit True logical_def visit_def get_entry_set_entry np)
    next
      case False
      then show ?thesis using assms(2)
        by (simp add: Visit logical_def visit_def get_entry_set_entry)
    qed
  next
    case (Exit k)
    show ?thesis
    proof (cases "k = p")
      case True
      from entry show ?thesis
        by cases (auto simp: Exit True logical_def exit_def get_entry_set_entry np)
    next
      case False
      then show ?thesis using assms(2)
        by (simp add: Exit logical_def exit_def get_entry_set_entry)
    qed
  next
    case (Visited k)
    then show ?thesis using assms(2) by simp
  next
    case Reset
    then show ?thesis using assms(1) by (simp add: logical_def reset_def get_entry_def)
  qed
qed

lemma logical_run_calls:
  "p \<notin> set prototype_members \<Longrightarrow> logical rc p = Some (int (d p)) \<Longrightarrow>
   logical (run_calls rc cs) p = Some (int (spec_depths d cs p))"
proof (induction cs arbitrary: rc d)
  case Nil
  then show ?case by simp
next
  case (Cons c cs)
  have "logical (apply_call rc c) p = Some (int (spec_depth d c p))"
    using Cons.prems by (rule logical_apply_call)
  from Cons.IH [of "apply_call rc c" "spec_depth d c", OF Cons.prems(1) this] show ?case by simp
qed

lemma logical_new:
  "p \<notin> set prototype_members \<Longrightarrow> logical new_RefCounter p = Some (int ((\<lambda>_. 0) p))"
  by (simp add: logical_def new_RefCounter_def get_entry_def)

lemma visited_iff_logical:
  "logical rc p = Some n \<Longrightarrow> visited rc p \<longleftrightarrow> n \<noteq> 0"
  by (cases "get_entry rc p") (auto simp: logical_def visited_def)

lemma exit_at_zero:
  assumes "p \<notin> set prototype_members" and "logical rc p = Some 0"
  shows "logical (exit rc p) p = Some 0"
proof -
  from assms(1) have np: "p \<noteq> ''__proto__''" by (auto simp: prototype_members_def)
  from assms(2) show ?thesis
    by (cases "get_entry rc p") (auto simp: logical_def exit_def get_entry_set_entry np)
qed

text \<open>
  C9, as stated, fails at a pointer that is the name of a member of \<^verbatim>\<open>Object.prototype\<close>.
  On a new counter nothing was visited, and \<open>visited\<close> answers true for \<^verbatim>\<open>constructor\<close>;
  \<open>exit\<close> then writes \<^verbatim>\<open>NaN\<close>, which is no depth. For \<^verbatim>\<open>__proto__\<close> no call changes
  anything: it is visited after one \<open>visit\<close> and two \<open>exit\<close>, and after \<open>reset\<close>.
\<close>

theorem refcounter_prototype_counterexample:
  "spec_depths (\<lambda>_. 0) [] ''constructor'' = 0
   \<and> visited (run_calls new_RefCounter []) ''constructor''
   \<and> logical (run_calls new_RefCounter []) ''constructor'' = None
   \<and> get_entry (exit new_RefCounter ''constructor'') ''constructor'' = ENaN
   \<and> get_entry (visit new_RefCounter ''constructor'') ''constructor'' = EText ''constructor'' 1
   \<and> visited (run_calls new_RefCounter [Visit ''__proto__'', Exit ''__proto__'', Exit ''__proto__''])
        ''__proto__''
   \<and> spec_depths (\<lambda>_. 0) [Visit ''__proto__'', Exit ''__proto__'', Exit ''__proto__''] ''__proto__'' = 0"
  by (simp add: visited_def logical_def exit_def visit_def get_entry_set_entry
      get_entry_def new_RefCounter_def set_entry_def prototype_members_def)

text \<open>
  C9, amended. Take a pointer that is not the name of a member of \<^verbatim>\<open>Object.prototype\<close>; every
  pointer that begins with \<^verbatim>\<open>#\<close> is one. After any sequence of \<open>visit\<close>, \<open>exit\<close>,
  \<open>visited\<close> and \<open>reset\<close> calls on a new counter, with this pointer or any other,
  the entry of the pointer stands for exactly the depth the specification describes,
  so it is a number and never negative; \<open>visited\<close> answers true exactly when it is
  positive; and \<open>exit\<close> on the pointer when it is logically zero leaves it logically zero
  and not visited.
\<close>

theorem refcounter_never_negative:
  assumes "p \<notin> set prototype_members"
  shows "logical (run_calls new_RefCounter cs) p = Some (int (spec_depths (\<lambda>_. 0) cs p))
   \<and> (\<exists>n. logical (run_calls new_RefCounter cs) p = Some n \<and> 0 \<le> n
          \<and> (visited (run_calls new_RefCounter cs) p \<longleftrightarrow> 0 < n))
   \<and> (logical (run_calls new_RefCounter cs) p = Some 0 \<longrightarrow>
        logical (exit (run_calls new_RefCounter cs) p) p = Some 0
        \<and> \<not> visited (exit (run_calls new_RefCounter cs) p) p)"
proof -
  let ?rc = "run_calls new_RefCounter cs"
  let ?n = "int (spec_depths (\<lambda>_. 0) cs p)"
  have eq: "logical ?rc p = Some ?n"
    using assms logical_new [OF assms] by (rule logical_run_calls)
  have vis: "visited ?rc p \<longleftrightarrow> 0 < ?n"
    using visited_iff_logical [OF eq] by auto
  have ex: "logical ?rc p = Some 0 \<longrightarrow>
      logical (exit ?rc p) p = Some 0 \<and> \<not> visited (exit ?rc p) p"
  proof
    assume z: "logical ?rc p = Some 0"
    from exit_at_zero [OF assms z] have e: "logical (exit ?rc p) p = Some 0" .
    from visited_iff_logical [OF e] e
    show "logical (exit ?rc p) p = Some 0 \<and> \<not> visited (exit ?rc p) p" by simp
  qed
  have "\<exists>n. logical ?rc p = Some n \<and> 0 \<le> n \<and> (visited ?rc p \<longleftrightarrow> 0 < n)"
    using eq vis by (intro exI [of _ ?n]) simp
  with eq ex show ?thesis by blast
qed

theorem refcounter_never_negative_witness:
  "''#/a'' \<notin> set prototype_members
   \<and> logical (run_calls new_RefCounter [Exit ''#/a'', Visit ''#/a'', Exit ''#/a'', Exit ''#/a'']) ''#/a''
       = Some 0
   \<and> \<not> visited (run_calls new_RefCounter [Exit ''#/a'', Visit ''#/a'', Exit ''#/a'', Exit ''#/a'']) ''#/a''
   \<and> logical (exit (run_calls new_RefCounter [Exit ''#/a'', Visit ''#/a'', Exit ''#/a'', Exit ''#/a'']) ''#/a'') ''#/a''
       = Some 0
   \<and> logical (run_calls new_RefCounter [Visit ''#/a'', Visit ''constructor'', Visit ''#/a'', Exit ''#/a'']) ''#/a''
       = Some 1
   \<and> visited (run_calls new_RefCounter [Visit ''#/a'', Visit ''constructor'', Visit ''#/a'', Exit ''#/a'']) ''#/a''"
proof -
  have m: "''#/a'' \<notin> set prototype_members" by (rule fragment_not_member) simp
  from refcounter_never_negative
    [OF m, of "[Exit ''#/a'', Visit ''#/a'', Exit ''#/a'', Exit ''#/a'']"]
    refcounter_never_negative
    [OF m, of "[Visit ''#/a'', Visit ''constructor'', Visit ''#/a'', Exit ''#/a'']"]
    m
  show ?thesis by auto
qed

section \<open>Properties of \<open>deref\<close>\<close>

subsection \<open>Objects and their fields\<close>

lemma map_of_assign_rev: "map_of (assign tgt src) = map_of tgt ++ map_of (rev src)"
  unfolding assign_def
proof (induction src arbitrary: tgt)
  case Nil
  then show ?case by simp
next
  case (Cons kv src)
  obtain k v where kv: "kv = (k, v)" by (cases kv)
  show ?case
    by (simp add: kv Cons.IH update_conv' map_add_def fun_eq_iff split: option.splits)
qed

lemma map_of_rev_distinct: "distinct (map fst xs) \<Longrightarrow> map_of (rev xs) = map_of xs"
  by (rule ext) (metis distinct_rev map_of_inject_set rev_map set_rev option.exhaust map_of_eq_None_iff map_of_SomeD map_of_is_SomeI)

lemma map_of_assign:
  "distinct (map fst src) \<Longrightarrow> map_of (assign tgt src) = map_of tgt ++ map_of src"
  by (simp add: map_of_assign_rev map_of_rev_distinct)

lemma field_assign:
  "distinct (map fst src) \<Longrightarrow>
   field (assign tgt src) k = (case map_of src k of None \<Rightarrow> field tgt k | Some v \<Rightarrow> v)"
  by (simp add: field_def map_of_assign map_add_def split: option.splits)

subsection \<open>One step of \<open>deref\<close>\<close>




lemma deref_not_ref: "\<not> isRef obj \<Longrightarrow> deref L spec rc obj fc = (Inr obj, rc)"
  by (simp add: deref.simps [of L spec rc obj])

lemma deref_throw:
  "isRef obj \<Longrightarrow> byRef L spec (own_prop obj ''$ref'') = Inl e \<Longrightarrow>
   deref L spec rc obj fc = (Inl e, rc)"
  by (simp add: deref.simps [of L spec rc obj])


lemma deref_inline:
  "isRef obj \<Longrightarrow> byRef L spec (own_prop obj ''$ref'') = Inr resolved \<Longrightarrow>
   \<not> (visited rc (ref_key obj) \<and> \<not> fc) \<Longrightarrow> \<not> isRef resolved \<Longrightarrow>
   deref L spec rc obj fc = (Inr resolved, visit rc (ref_key obj))"
  by (auto simp: deref.simps [of L spec rc obj])


subsection \<open>References that form a cycle\<close>











subsection \<open>\<open>forceCircular\<close>\<close>




subsection \<open>Pointers that do not resolve\<close>

text \<open>
  C3. \<^verbatim>\<open>byRef\<close> catches what \<^verbatim>\<open>JsonPointer.get\<close> throws, but decodes the pointer
  before the \<^verbatim>\<open>try\<close>: on the pointer \<^verbatim>\<open>#/%zz\<close>, whose escape is malformed, \<open>deref\<close>
  throws a \<^verbatim>\<open>URIError\<close>. And a pointer that does not resolve and is already visited
  gives, with \<^verbatim>\<open>forceCircular = false\<close>, not \<^verbatim>\<open>undefined\<close> but an object that holds the
  circular marker alone, the copy of nothing. A pointer that simply does not resolve,
  \<^verbatim>\<open>#/nope\<close> here, gives \<^verbatim>\<open>undefined\<close> when it was not visited.
\<close>

theorem deref_unresolved_pointer:
  "fst (deref std_lib doc_chain new_RefCounter (ref_to ''#/%zz'') False) = Inl URIError
   \<and> fst (deref std_lib doc_chain (visit new_RefCounter ''#/nope'') (ref_to ''#/nope'') False)
       = Inr (JObj [(''x-circular-ref'', JBool True)])
   \<and> fst (deref std_lib doc_chain new_RefCounter (ref_to ''#/nope'') False) = Inr JUndefined"
  by code_simp

section \<open>Properties of \<open>mergeAllOf\<close>\<close>

subsection \<open>Fields after an update and after a spread\<close>

lemma field_update: "field (AList.update k v al) k' = (if k' = k then v else field al k')"
  by (simp add: field_def update_conv')

lemma keys_update: "keys (AList.update k v al) = insert k (keys al)"
  by (simp add: keys_def dom_update)

lemma keys_Nil: "keys [] = {}"
  by (simp add: keys_def)

lemma keys_Cons: "keys ((k, v) # al) = insert k (keys al)"
  by (simp add: keys_def)

lemma keys_assign: "keys (assign tgt src) = keys tgt \<union> keys src"
  unfolding assign_def
proof (induction src arbitrary: tgt)
  case Nil
  then show ?case by (simp add: keys_Nil)
next
  case (Cons kv src)
  obtain k v where kv: "kv = (k, v)" by (cases kv)
  have "keys (fold (\<lambda>(k, v). AList.update k v) src (AList.update k v tgt))
        = insert k (keys tgt) \<union> keys src"
    by (simp only: Cons.IH keys_update)
  then show ?case by (simp add: kv keys_Cons)
qed

lemma distinct_assign: "distinct (map fst tgt) \<Longrightarrow> distinct (map fst (assign tgt src))"
  unfolding assign_def
  by (induction src arbitrary: tgt) (auto simp: distinct_update)

lemma field_absent: "k \<notin> keys al \<Longrightarrow> field al k = JUndefined"
  by (simp add: field_def keys_def map_of_eq_None_iff [THEN iffD2])

lemma field_assign_keys:
  "field (assign tgt src) k = (if k \<in> keys src then field src k else field tgt k)"
  if "distinct (map fst src)"
proof (cases "map_of src k")
  case None
  then have "k \<notin> keys src" by (simp add: keys_def map_of_eq_None_iff)
  then show ?thesis using None that by (simp add: field_assign)
next
  case (Some v)
  then have "k \<in> keys src"
    unfolding keys_def by (metis map_of_eq_None_iff option.distinct(1))
  moreover have "field (assign tgt src) k = v" using Some that by (simp add: field_assign)
  moreover have "field src k = v" using Some by (simp add: field_def)
  ultimately show ?thesis by simp
qed

lemma field_spread:
  "distinct (map fst a) \<Longrightarrow> distinct (map fst b) \<Longrightarrow>
   field (assign (assign [] a) b) k = (if k \<in> keys b then field b k else field a k)"
  by (simp add: field_assign_keys field_absent keys_assign keys_Nil)

subsection \<open>The blocks of the loop body\<close>

lemma field_merge_type:
  "field (merge_type r sub) k =
     (if k = ''type'' \<and> own_prop sub ''type'' \<noteq> JUndefined then own_prop sub ''type''
      else field r k)"
  by (simp add: merge_type_def field_update)

lemma distinct_merge_type: "distinct (map fst r) \<Longrightarrow> distinct (map fst (merge_type r sub))"
  by (simp add: merge_type_def distinct_update)

lemma field_merge_properties:
  "field (merge_properties r sub) k =
     (if k = ''properties'' \<and> own_prop sub ''properties'' \<noteq> JUndefined
      then JObj (assign (assign [] (own_enumerable (js_or (field r ''properties'') (JObj []))))
                   (own_enumerable (own_prop sub ''properties'')))
      else field r k)"
  by (simp add: merge_properties_def field_update)

lemma distinct_merge_properties:
  "distinct (map fst r) \<Longrightarrow> distinct (map fst (merge_properties r sub))"
  by (simp add: merge_properties_def distinct_update)

lemma field_merge_required:
  "merge_required r sub = Inr r' \<Longrightarrow>
   field r' k =
     (if k = ''required'' \<and> own_prop sub ''required'' \<noteq> JUndefined
      then (case js_concat (js_or (field r ''required'') (JArr [])) (own_prop sub ''required'') of
              Inr v \<Rightarrow> v | Inl e \<Rightarrow> JUndefined)
      else field r k)"
  by (auto simp: merge_required_def field_update split: if_splits sum.splits)

lemma distinct_merge_required:
  "merge_required r sub = Inr r' \<Longrightarrow> distinct (map fst r) \<Longrightarrow> distinct (map fst r')"
  by (auto simp: merge_required_def distinct_update split: if_splits sum.splits)

lemma field_push_parentRefs:
  "push_parentRefs r items = Inr r' \<Longrightarrow>
   (\<exists>ps. field r ''parentRefs'' = JArr ps \<and> field r' ''parentRefs'' = JArr (ps @ items))
   \<and> (\<forall>k. k \<noteq> ''parentRefs'' \<longrightarrow> field r' k = field r k)"
  by (auto simp: push_parentRefs_def field_update split: json.splits)

lemma keys_push_parentRefs:
  "push_parentRefs r items = Inr r' \<Longrightarrow> keys r' = insert ''parentRefs'' (keys r)"
  by (auto simp: push_parentRefs_def keys_update split: json.splits)

lemma distinct_push_parentRefs:
  "push_parentRefs r items = Inr r' \<Longrightarrow> distinct (map fst r) \<Longrightarrow> distinct (map fst r')"
  by (auto simp: push_parentRefs_def distinct_update split: json.splits)

lemma field_merge_parent_other:
  "merge_parent L r subRef = Inr r' \<Longrightarrow> k \<noteq> ''parentRefs'' \<Longrightarrow> k \<noteq> ''title'' \<Longrightarrow>
   field r' k = field r k"
  by (auto simp: merge_parent_def field_update split: if_splits sum.splits
      dest!: field_push_parentRefs)

lemma field_merge_parent_title:
  "merge_parent L r subRef = Inr r' \<Longrightarrow>
   field r' ''title'' =
     (if truthy subRef \<and> field r ''title'' = JUndefined \<and> isNamedDefinition L subRef
      then baseName L subRef else field r ''title'')"
  by (auto simp: merge_parent_def field_update split: if_splits sum.splits
      dest!: field_push_parentRefs)

lemma field_merge_parent_parentRefs:
  "merge_parent L r subRef = Inr r' \<Longrightarrow>
   (if truthy subRef
    then \<exists>ps. field r ''parentRefs'' = JArr ps \<and> field r' ''parentRefs'' = JArr (ps @ [subRef])
    else field r' ''parentRefs'' = field r ''parentRefs'')"
  by (auto simp: merge_parent_def field_update split: if_splits sum.splits
      dest!: field_push_parentRefs)

lemma distinct_merge_parent:
  "merge_parent L r subRef = Inr r' \<Longrightarrow> distinct (map fst r) \<Longrightarrow> distinct (map fst r')"
  by (auto simp: merge_parent_def distinct_update split: if_splits sum.splits
      dest: distinct_push_parentRefs)

lemma merge_stepD:
  assumes "merge_step L ref r (subRef, sub) = Inr r'"
  obtains r3 where
    "sub \<noteq> JUndefined" "sub \<noteq> JNull"
    "\<not> (field r ''type'' \<noteq> own_prop sub ''type'' \<and> field r ''type'' \<noteq> JUndefined
        \<and> own_prop sub ''type'' \<noteq> JUndefined)"
    "merge_required (merge_properties (merge_type r sub) sub) sub = Inr r3"
    "merge_parent L (assign (assign [] (own_enumerable sub)) r3) subRef = Inr r'"
  using assms
  by (auto simp: merge_step_def getprop_def split: if_splits sum.splits)


subsection \<open>Index keys are numerals\<close>

lemma show_nat_digits: "c \<in> set (show_nat n) \<Longrightarrow> (of_char c :: nat) < 58"
proof (induction n rule: show_nat.induct)
  case (1 n)
  show ?case
  proof (cases "n < 10")
    case True
    then show ?thesis using "1.prems" by (simp add: show_nat.simps [of n])
  next
    case False
    then have "c \<in> set (show_nat (n div 10)) \<or> c = char_of (48 + n mod 10)"
      using "1.prems" by (auto simp: show_nat.simps [of n])
    then show ?thesis
    proof
      assume "c \<in> set (show_nat (n div 10))"
      then show ?thesis using "1.IH" False by simp
    next
      assume c: "c = char_of (48 + n mod 10)"
      have "n mod 10 < 10" by simp
      then have "(48 + n mod 10) mod 256 = 48 + n mod 10" by simp
      then show ?thesis using c by simp
    qed
  qed
qed

lemma index_keys:
  "k \<in> keys (zip (map show_nat [0..<n]) xs) \<Longrightarrow> \<forall>c\<in>set k. (of_char c :: nat) < 58"
proof -
  assume "k \<in> keys (zip (map show_nat [0..<n]) xs)"
  then have "k \<in> set (map show_nat [0..<n])"
    unfolding keys_def by (auto dest: set_zip_leftD)
  then show ?thesis by (auto dest: show_nat_digits)
qed

lemma field_own_enumerable:
  assumes "\<exists>c\<in>set k. \<not> (of_char c :: nat) < 58"
  shows "field (own_enumerable v) k = own_prop v k"
proof (cases v)
  case (JStr s)
  then show ?thesis using assms index_keys [of k "length s"]
    by (auto simp: own_prop_def intro!: field_absent)
next
  case (JArr xs)
  then show ?thesis using assms index_keys [of k "length xs"]
    by (auto simp: own_prop_def intro!: field_absent)
next
  case (JObj kvs)
  then show ?thesis by (simp add: own_prop_def)
qed (simp_all add: own_prop_def field_absent keys_Nil)

lemma key_own_enumerable:
  assumes "\<exists>c\<in>set k. \<not> (of_char c :: nat) < 58"
  shows "k \<in> keys (own_enumerable v) \<Longrightarrow> \<exists>kvs. v = JObj kvs"
  using assms index_keys [of k]
  by (cases v) (auto simp: keys_Nil)

subsection \<open>One round of the loop\<close>

lemma keys_merge_type:
  "keys (merge_type r sub)
     = (if own_prop sub ''type'' \<noteq> JUndefined then insert ''type'' (keys r) else keys r)"
  by (simp add: merge_type_def keys_update)

lemma keys_merge_properties:
  "keys (merge_properties r sub)
     = (if own_prop sub ''properties'' \<noteq> JUndefined then insert ''properties'' (keys r) else keys r)"
  by (simp add: merge_properties_def keys_update)

lemma keys_merge_required:
  "merge_required r sub = Inr r' \<Longrightarrow>
   keys r' = (if own_prop sub ''required'' \<noteq> JUndefined then insert ''required'' (keys r) else keys r)"
  by (auto simp: merge_required_def keys_update split: if_splits sum.splits)

lemma merge_step_distinct:
  assumes "merge_step L ref r (subRef, sub) = Inr r'" and "distinct (map fst r)"
  shows "distinct (map fst r')"
proof -
  from assms(1) obtain r3 where
    r3: "merge_required (merge_properties (merge_type r sub) sub) sub = Inr r3"
    and r': "merge_parent L (assign (assign [] (own_enumerable sub)) r3) subRef = Inr r'"
    by (rule merge_stepD)
  have "distinct (map fst (assign (assign [] (own_enumerable sub)) r3))"
    by (simp add: distinct_assign)
  then show ?thesis using r' by (rule distinct_merge_parent [rotated])
qed

text \<open>The receiver as the spread \<^verbatim>\<open>{ ...subSchema, ...receiver }\<close> leaves it.\<close>

lemma merge_step_spread:
  assumes "merge_step L ref r (subRef, sub) = Inr r'"
    and dr: "distinct (map fst r)" and ds: "distinct (map fst (own_enumerable sub))"
  shows "\<exists>r3.
    merge_required (merge_properties (merge_type r sub) sub) sub = Inr r3
    \<and> merge_parent L (assign (assign [] (own_enumerable sub)) r3) subRef = Inr r'
    \<and> (\<forall>k. field (assign (assign [] (own_enumerable sub)) r3) k
           = (if k \<in> keys r3 then field r3 k else field (own_enumerable sub) k))"
proof -
  from assms(1) obtain r3 where
    r3: "merge_required (merge_properties (merge_type r sub) sub) sub = Inr r3"
    and r': "merge_parent L (assign (assign [] (own_enumerable sub)) r3) subRef = Inr r'"
    by (rule merge_stepD)
  have "distinct (map fst r3)"
    using r3 dr by (auto intro: distinct_merge_required distinct_merge_properties distinct_merge_type)
  then have "field (assign (assign [] (own_enumerable sub)) r3) k
           = (if k \<in> keys r3 then field r3 k else field (own_enumerable sub) k)" for k
    using ds by (simp add: field_spread)
  with r3 r' show ?thesis by blast
qed

lemma merge_step_type:
  assumes "merge_step L ref r (subRef, sub) = Inr r'"
    and "distinct (map fst r)" and "distinct (map fst (own_enumerable sub))"
  shows "field r' ''type''
     = (if own_prop sub ''type'' \<noteq> JUndefined then own_prop sub ''type'' else field r ''type'')"
proof -
  from merge_step_spread [OF assms] obtain r3 where
    r3: "merge_required (merge_properties (merge_type r sub) sub) sub = Inr r3"
    and r': "merge_parent L (assign (assign [] (own_enumerable sub)) r3) subRef = Inr r'"
    and sp: "\<And>k. field (assign (assign [] (own_enumerable sub)) r3) k
           = (if k \<in> keys r3 then field r3 k else field (own_enumerable sub) k)"
    by blast
  have f3: "field r3 ''type''
     = (if own_prop sub ''type'' \<noteq> JUndefined then own_prop sub ''type'' else field r ''type'')"
    by (simp add: field_merge_required [OF r3] field_merge_properties field_merge_type)
  have k3: "''type'' \<in> keys r3 \<longleftrightarrow> ''type'' \<in> keys r \<or> own_prop sub ''type'' \<noteq> JUndefined"
    by (auto simp: keys_merge_required [OF r3] keys_merge_properties keys_merge_type)
  have e: "field (own_enumerable sub) ''type'' = own_prop sub ''type''"
    by (rule field_own_enumerable) simp
  have "field r' ''type'' = field (assign (assign [] (own_enumerable sub)) r3) ''type''"
    using r' by (rule field_merge_parent_other) simp_all
  then show ?thesis
    using f3 k3 e by (auto simp: sp field_absent)
qed


lemma merge_step_properties:
  assumes "merge_step L ref r (subRef, sub) = Inr r'"
    and "distinct (map fst r)" and "distinct (map fst (own_enumerable sub))"
  shows "field r' ''properties''
     = (if own_prop sub ''properties'' \<noteq> JUndefined
        then JObj (assign (assign [] (own_enumerable (js_or (field r ''properties'') (JObj []))))
                     (own_enumerable (own_prop sub ''properties'')))
        else field r ''properties'')"
proof -
  from merge_step_spread [OF assms] obtain r3 where
    r3: "merge_required (merge_properties (merge_type r sub) sub) sub = Inr r3"
    and r': "merge_parent L (assign (assign [] (own_enumerable sub)) r3) subRef = Inr r'"
    and sp: "\<And>k. field (assign (assign [] (own_enumerable sub)) r3) k
           = (if k \<in> keys r3 then field r3 k else field (own_enumerable sub) k)"
    by blast
  have f3: "field r3 ''properties''
     = (if own_prop sub ''properties'' \<noteq> JUndefined
        then JObj (assign (assign [] (own_enumerable (js_or (field r ''properties'') (JObj []))))
                     (own_enumerable (own_prop sub ''properties'')))
        else field r ''properties'')"
    by (simp add: field_merge_required [OF r3] field_merge_properties field_merge_type)
  have k3: "''properties'' \<in> keys r3
      \<longleftrightarrow> ''properties'' \<in> keys r \<or> own_prop sub ''properties'' \<noteq> JUndefined"
    by (auto simp: keys_merge_required [OF r3] keys_merge_properties keys_merge_type)
  have e: "field (own_enumerable sub) ''properties'' = own_prop sub ''properties''"
    by (rule field_own_enumerable) simp
  have "field r' ''properties'' = field (assign (assign [] (own_enumerable sub)) r3) ''properties''"
    using r' by (rule field_merge_parent_other) simp_all
  then show ?thesis
    using f3 k3 e by (auto simp: sp field_absent)
qed

lemma merge_step_required:
  assumes "merge_step L ref r (subRef, sub) = Inr r'"
    and "distinct (map fst r)" and "distinct (map fst (own_enumerable sub))"
  shows "if own_prop sub ''required'' \<noteq> JUndefined
         then js_concat (js_or (field r ''required'') (JArr [])) (own_prop sub ''required'')
                = Inr (field r' ''required'')
         else field r' ''required'' = field r ''required''"
proof -
  from merge_step_spread [OF assms] obtain r3 where
    r3: "merge_required (merge_properties (merge_type r sub) sub) sub = Inr r3"
    and r': "merge_parent L (assign (assign [] (own_enumerable sub)) r3) subRef = Inr r'"
    and sp: "\<And>k. field (assign (assign [] (own_enumerable sub)) r3) k
           = (if k \<in> keys r3 then field r3 k else field (own_enumerable sub) k)"
    by blast
  let ?r2 = "merge_properties (merge_type r sub) sub"
  have r2: "field ?r2 ''required'' = field r ''required''"
    by (simp add: field_merge_properties field_merge_type)
  have f3: "if own_prop sub ''required'' \<noteq> JUndefined
         then js_concat (js_or (field r ''required'') (JArr [])) (own_prop sub ''required'')
                = Inr (field r3 ''required'')
         else field r3 ''required'' = field r ''required''"
    using r3 r2 by (auto simp: merge_required_def field_update split: if_splits sum.splits)
  have k3: "''required'' \<in> keys r3
      \<longleftrightarrow> ''required'' \<in> keys r \<or> own_prop sub ''required'' \<noteq> JUndefined"
    by (auto simp: keys_merge_required [OF r3] keys_merge_properties keys_merge_type)
  have e: "field (own_enumerable sub) ''required'' = own_prop sub ''required''"
    by (rule field_own_enumerable) simp
  have "field r' ''required'' = field (assign (assign [] (own_enumerable sub)) r3) ''required''"
    using r' by (rule field_merge_parent_other) simp_all
  then show ?thesis
    using f3 k3 e by (auto simp: sp field_absent split: if_splits)
qed

lemma merge_step_other:
  assumes "merge_step L ref r (subRef, sub) = Inr r'"
    and "distinct (map fst r)" and "distinct (map fst (own_enumerable sub))"
    and k: "k \<notin> {''type'', ''properties'', ''required'', ''parentRefs'', ''title''}"
  shows "field r' k = (if k \<in> keys r then field r k else field (own_enumerable sub) k)"
proof -
  from merge_step_spread [OF assms(1-3)] obtain r3 where
    r3: "merge_required (merge_properties (merge_type r sub) sub) sub = Inr r3"
    and r': "merge_parent L (assign (assign [] (own_enumerable sub)) r3) subRef = Inr r'"
    and sp: "\<And>k. field (assign (assign [] (own_enumerable sub)) r3) k
           = (if k \<in> keys r3 then field r3 k else field (own_enumerable sub) k)"
    by blast
  have f3: "field r3 k = field r k"
    using k by (simp add: field_merge_required [OF r3] field_merge_properties field_merge_type)
  have k3: "k \<in> keys r3 \<longleftrightarrow> k \<in> keys r"
    using k by (auto simp: keys_merge_required [OF r3] keys_merge_properties keys_merge_type)
  have "field r' k = field (assign (assign [] (own_enumerable sub)) r3) k"
    using r' k by (intro field_merge_parent_other) simp_all
  then show ?thesis
    using f3 k3 by (simp add: sp)
qed

lemma merge_step_title:
  assumes "merge_step L ref r (subRef, sub) = Inr r'"
    and "distinct (map fst r)" and "distinct (map fst (own_enumerable sub))"
  shows "field r' ''title'' =
     (if field r ''title'' \<noteq> JUndefined then field r ''title''
      else if ''title'' \<notin> keys r \<and> own_prop sub ''title'' \<noteq> JUndefined then own_prop sub ''title''
      else if truthy subRef \<and> isNamedDefinition L subRef then baseName L subRef
      else JUndefined)"
proof -
  from merge_step_spread [OF assms(1-3)] obtain r3 where
    r3: "merge_required (merge_properties (merge_type r sub) sub) sub = Inr r3"
    and r': "merge_parent L (assign (assign [] (own_enumerable sub)) r3) subRef = Inr r'"
    and sp: "\<And>k. field (assign (assign [] (own_enumerable sub)) r3) k
           = (if k \<in> keys r3 then field r3 k else field (own_enumerable sub) k)"
    by blast
  have f3: "field r3 ''title'' = field r ''title''"
    by (simp add: field_merge_required [OF r3] field_merge_properties field_merge_type)
  have k3: "''title'' \<in> keys r3 \<longleftrightarrow> ''title'' \<in> keys r"
    by (auto simp: keys_merge_required [OF r3] keys_merge_properties keys_merge_type)
  have e: "field (own_enumerable sub) ''title'' = own_prop sub ''title''"
    by (rule field_own_enumerable) simp
  show ?thesis
    using f3 k3 e by (auto simp: field_merge_parent_title [OF r'] sp field_absent)
qed

lemma merge_step_parentRefs:
  assumes "merge_step L ref r (subRef, sub) = Inr r'"
    and "distinct (map fst r)" and "distinct (map fst (own_enumerable sub))"
    and "field r ''parentRefs'' = JArr ps"
  shows "field r' ''parentRefs'' = JArr (ps @ (if truthy subRef then [subRef] else []))"
proof -
  from merge_step_spread [OF assms(1-3)] obtain r3 where
    r3: "merge_required (merge_properties (merge_type r sub) sub) sub = Inr r3"
    and r': "merge_parent L (assign (assign [] (own_enumerable sub)) r3) subRef = Inr r'"
    and sp: "\<And>k. field (assign (assign [] (own_enumerable sub)) r3) k
           = (if k \<in> keys r3 then field r3 k else field (own_enumerable sub) k)"
    by blast
  have f3: "field r3 ''parentRefs'' = JArr ps"
    using assms(4)
    by (simp add: field_merge_required [OF r3] field_merge_properties field_merge_type)
  have "''parentRefs'' \<in> keys r"
    using assms(4) field_absent [of "''parentRefs''" r] by auto
  then have k3: "''parentRefs'' \<in> keys r3"
    by (auto simp: keys_merge_required [OF r3] keys_merge_properties keys_merge_type)
  show ?thesis
    using field_merge_parent_parentRefs [OF r'] f3 k3 by (auto simp: sp split: if_splits)
qed

subsection \<open>The loop\<close>

lemma merge_fold_append:
  "merge_fold L ref r (xs @ ys) =
     (case merge_fold L ref r xs of Inl e \<Rightarrow> Inl e | Inr r' \<Rightarrow> merge_fold L ref r' ys)"
  by (induction xs arbitrary: r) (auto split: sum.splits)

lemma merge_fold_distinct:
  "merge_fold L ref r es = Inr r' \<Longrightarrow> distinct (map fst r) \<Longrightarrow> distinct (map fst r')"
proof (induction es arbitrary: r)
  case Nil
  then show ?case by simp
next
  case (Cons e es)
  obtain subRef sub where e: "e = (subRef, sub)" by (cases e)
  from Cons.prems obtain r1 where s: "merge_step L ref r (subRef, sub) = Inr r1"
    and f: "merge_fold L ref r1 es = Inr r'"
    by (auto simp: e split: sum.splits)
  from merge_step_distinct [OF s Cons.prems(2)] Cons.IH [OF f] show ?case by simp
qed

lemma merge_fold_split:
  assumes "merge_fold L ref r0 (pre @ e # post) = Inr rf"
  shows "\<exists>r r'. merge_fold L ref r0 pre = Inr r \<and> merge_step L ref r e = Inr r'
          \<and> merge_fold L ref r' post = Inr rf"
  using assms by (auto simp: merge_fold_append split: sum.splits)


subsection \<open>The depth bound only cuts off\<close>

lemma merge_branch_mono:
  assumes "\<And>rc s r res. rec1 rc s r = Some res \<Longrightarrow> rec2 rc s r = Some res"
    and "merge_branch rec1 L spec fc rc receiver sub = Some res"
  shows "merge_branch rec2 L spec fc rc receiver sub = Some res"
proof -
  obtain d rc1 where d: "deref L spec rc sub fc = (d, rc1)" by (cases "deref L spec rc sub fc")
  show ?thesis
  proof (cases d)
    case (Inl e)
    then show ?thesis using assms(2) d by (simp add: merge_branch_def)
  next
    case (Inr resolved)
    show ?thesis
    proof (cases "getprop sub ''$ref''")
      case (Inl e)
      then show ?thesis using assms(2) d Inr by (simp add: merge_branch_def)
    next
      case r: (Inr r)
      show ?thesis
      proof (cases "rec1 rc1 resolved (js_or r JUndefined)")
        case None
        then show ?thesis using assms(2) d Inr r by (simp add: merge_branch_def)
      next
        case (Some x)
        from assms(1) [OF Some] have "rec2 rc1 resolved (js_or r JUndefined) = Some x" .
        then show ?thesis using assms(2) d Inr r Some by (simp add: merge_branch_def)
      qed
    qed
  qed
qed

lemma merge_branches_mono:
  assumes "\<And>rc s r res. rec1 rc s r = Some res \<Longrightarrow> rec2 rc s r = Some res"
  shows "merge_branches rec1 L spec fc rc receiver subs = Some res \<Longrightarrow>
         merge_branches rec2 L spec fc rc receiver subs = Some res"
proof (induction subs arbitrary: rc receiver res)
  case Nil
  then show ?case by simp
next
  case (Cons sub subs)
  from Cons.prems obtain b where b: "merge_branch rec1 L spec fc rc receiver sub = Some b"
    by (auto split: option.splits)
  from merge_branch_mono [OF assms b] have b2: "merge_branch rec2 L spec fc rc receiver sub = Some b" .
  show ?case
  proof (cases b)
    case (Pair x rc1)
    show ?thesis
    proof (cases x)
      case (Inl e)
      then show ?thesis using Cons.prems b b2 Pair by simp
    next
      case (Inr y)
      obtain entry receiver1 where y: "y = (entry, receiver1)" by (cases y)
      from Cons.prems b Pair Inr y obtain c where
        c: "merge_branches rec1 L spec fc rc1 receiver1 subs = Some c"
        by (auto split: option.splits)
      from Cons.IH [OF c] have "merge_branches rec2 L spec fc rc1 receiver1 subs = Some c" .
      then show ?thesis using Cons.prems b b2 Pair Inr y c by simp
    qed
  qed
qed

lemma mergeAllOf_Suc_mono:
  "mergeAllOf n L spec fc rc schema ref = Some res \<Longrightarrow>
   mergeAllOf (Suc n) L spec fc rc schema ref = Some res"
proof (induction n arbitrary: rc schema ref res)
  case 0
  then show ?case by (simp add: mergeAllOf.simps)
next
  case (Suc n)
  have m: "merge_branches (mergeAllOf n L spec fc) L spec fc rc receiver subs = Some x \<Longrightarrow>
        merge_branches (mergeAllOf (Suc n) L spec fc) L spec fc rc receiver subs = Some x"
    for rc receiver subs x
    by (rule merge_branches_mono [of "mergeAllOf n L spec fc"]) (rule Suc.IH)
  show ?case
  proof (cases "getprop schema ''allOf''")
    case (Inl e)
    then show ?thesis using Suc.prems by (simp add: mergeAllOf.simps)
  next
    case (Inr allOf)
    show ?thesis
    proof (cases "\<exists>subs. allOf = JArr subs")
      case False
      then show ?thesis using Suc.prems Inr by (cases allOf) (auto simp: mergeAllOf.simps)
    next
      case True
      then obtain subs where subs: "allOf = JArr subs" by blast
      from Suc.prems Inr subs obtain x where
        x: "merge_branches (mergeAllOf n L spec fc) L spec fc rc (new_receiver schema) subs = Some x"
        by (auto simp: mergeAllOf.simps split: option.splits)
      from m [OF x] Suc.prems Inr subs x show ?thesis
        by (simp add: mergeAllOf.simps(2) [of "Suc n"] mergeAllOf.simps(2) [of n])
    qed
  qed
qed

lemma mergeAllOf_mono:
  "mergeAllOf n L spec fc rc schema ref = Some res \<Longrightarrow> n \<le> m \<Longrightarrow>
   mergeAllOf m L spec fc rc schema ref = Some res"
proof (induction m)
  case 0
  then show ?case by simp
next
  case (Suc m)
  show ?case
  proof (cases "n \<le> m")
    case True
    from Suc.IH [OF Suc.prems(1) True] show ?thesis by (rule mergeAllOf_Suc_mono)
  next
    case False
    then have "n = Suc m" using Suc.prems(2) by simp
    then show ?thesis using Suc.prems(1) by simp
  qed
qed


subsection \<open>One branch of the loop\<close>

text \<open>
  Take any branch of the loop of \<open>mergeAllOf\<close>: the loop has brought the receiver to
  \<open>r\<close> over the branches before it, and this round takes it to \<open>r'\<close>. What \<open>r'\<close> has
  under \<^verbatim>\<open>type\<close>, \<^verbatim>\<open>properties\<close>, \<^verbatim>\<open>required\<close> and under any other key is then given by
  \<open>r\<close> and the branch, key by key.
\<close>

lemma merge_fold_branch:
  assumes "merge_fold L ref r0 (pre @ (subRef, sub) # post) = Inr rf"
    and "distinct (map fst r0)" and "distinct (map fst (own_enumerable sub))"
  shows "\<exists>r r'.
      merge_fold L ref r0 pre = Inr r
    \<and> merge_step L ref r (subRef, sub) = Inr r'
    \<and> merge_fold L ref r' post = Inr rf
    \<and> field r' ''type''
        = (if own_prop sub ''type'' \<noteq> JUndefined then own_prop sub ''type'' else field r ''type'')
    \<and> (own_prop sub ''properties'' = JUndefined \<longrightarrow> field r' ''properties'' = field r ''properties'')
    \<and> (own_prop sub ''properties'' \<noteq> JUndefined
         \<and> distinct (map fst (own_enumerable (js_or (field r ''properties'') (JObj []))))
         \<and> distinct (map fst (own_enumerable (own_prop sub ''properties'')))
        \<longrightarrow> (\<exists>us. field r' ''properties'' = JObj us
              \<and> (\<forall>k. field us k
                    = (if k \<in> keys (own_enumerable (own_prop sub ''properties''))
                       then field (own_enumerable (own_prop sub ''properties'')) k
                       else field (own_enumerable (js_or (field r ''properties'') (JObj []))) k))))
    \<and> (own_prop sub ''required'' = JUndefined \<longrightarrow> field r' ''required'' = field r ''required'')
    \<and> (\<forall>xs ys. js_or (field r ''required'') (JArr []) = JArr xs \<and> own_prop sub ''required'' = JArr ys
          \<longrightarrow> field r' ''required'' = JArr (xs @ ys))
    \<and> (\<forall>k. k \<notin> {''type'', ''properties'', ''required'', ''parentRefs'', ''title''}
          \<longrightarrow> field r' k = (if k \<in> keys r then field r k else field (own_enumerable sub) k))
    \<and> (field r ''title'' \<noteq> JUndefined \<longrightarrow> field r' ''title'' = field r ''title'')"
proof -
  from merge_fold_split [OF assms(1)] obtain r r' where
    pre: "merge_fold L ref r0 pre = Inr r"
    and step: "merge_step L ref r (subRef, sub) = Inr r'"
    and post: "merge_fold L ref r' post = Inr rf" by blast
  have dr: "distinct (map fst r)" using pre assms(2) by (rule merge_fold_distinct)
  note ds = assms(3)
  have ty: "field r' ''type''
        = (if own_prop sub ''type'' \<noteq> JUndefined then own_prop sub ''type'' else field r ''type'')"
    using step dr ds by (rule merge_step_type)
  note pr = merge_step_properties [OF step dr ds]
  have p1: "own_prop sub ''properties'' = JUndefined \<longrightarrow> field r' ''properties'' = field r ''properties''"
    using pr by simp
  have p2: "own_prop sub ''properties'' \<noteq> JUndefined
         \<and> distinct (map fst (own_enumerable (js_or (field r ''properties'') (JObj []))))
         \<and> distinct (map fst (own_enumerable (own_prop sub ''properties'')))
        \<longrightarrow> (\<exists>us. field r' ''properties'' = JObj us
              \<and> (\<forall>k. field us k
                    = (if k \<in> keys (own_enumerable (own_prop sub ''properties''))
                       then field (own_enumerable (own_prop sub ''properties'')) k
                       else field (own_enumerable (js_or (field r ''properties'') (JObj []))) k)))"
    using pr by (simp add: field_spread)
  note rq = merge_step_required [OF step dr ds]
  have q1: "own_prop sub ''required'' = JUndefined \<longrightarrow> field r' ''required'' = field r ''required''"
    using rq by simp
  have q2: "\<forall>xs ys. js_or (field r ''required'') (JArr []) = JArr xs \<and> own_prop sub ''required'' = JArr ys
          \<longrightarrow> field r' ''required'' = JArr (xs @ ys)"
    using rq by auto
  have ot: "\<forall>k. k \<notin> {''type'', ''properties'', ''required'', ''parentRefs'', ''title''}
          \<longrightarrow> field r' k = (if k \<in> keys r then field r k else field (own_enumerable sub) k)"
    using merge_step_other [OF step dr ds] by blast
  have ti: "field r ''title'' \<noteq> JUndefined \<longrightarrow> field r' ''title'' = field r ''title''"
    using merge_step_title [OF step dr ds] by simp
  show ?thesis
    by (intro exI [of _ r] exI [of _ r'] conjI pre step post ty p1 p2 q1 q2 ot ti)
qed

subsection \<open>Branches that disagree on the type\<close>

lemma own_prop_object: "own_prop v k \<noteq> JUndefined \<Longrightarrow> \<exists>kvs. v = JObj kvs"
  by (cases v) (auto simp: own_prop_def)

lemma getprop_defined: "own_prop v k \<noteq> JUndefined \<Longrightarrow> getprop v k = Inr (own_prop v k)"
  by (auto simp: getprop_def dest: own_prop_object)

lemma merge_step_conflict:
  assumes "field r ''type'' \<noteq> JUndefined" and "own_prop sub ''type'' \<noteq> JUndefined"
    and "field r ''type'' \<noteq> own_prop sub ''type''"
  shows "merge_step L ref r (subRef, sub) = Inl (UncopatibleTypes ref)"
  using assms by (simp add: merge_step_def getprop_defined)

lemma mergeAllOf_array:
  assumes "own_prop schema ''allOf'' = JArr subs"
  shows "mergeAllOf (Suc n) L spec fc rc schema ref =
     (case merge_branches (mergeAllOf n L spec fc) L spec fc rc (new_receiver schema) subs of
        None \<Rightarrow> None
      | Some (Inl e, rc') \<Rightarrow> Some (Inl e, rc')
      | Some (Inr (allOfSchemas, receiver), rc') \<Rightarrow>
         (case merge_fold L ref receiver allOfSchemas of
            Inl e \<Rightarrow> Some (Inl e, rc')
          | Inr receiver' \<Rightarrow> Some (Inr (JObj (top_title L schema ref receiver')), rc')))"
proof -
  have "getprop schema ''allOf'' = Inr (JArr subs)"
    using assms getprop_defined [of schema "''allOf''"] by simp
  then show ?thesis by (simp add: mergeAllOf.simps)
qed

lemma mergeAllOf_no_allOf:
  "getprop schema ''allOf'' = Inr JUndefined \<Longrightarrow>
   mergeAllOf (Suc n) L spec fc rc schema ref = Some (Inr schema, rc)"
  by (simp add: mergeAllOf.simps)

text \<open>
  C5. Let the branches of \<^verbatim>\<open>schema.allOf\<close> be dereferenced and merged (within \<open>n\<close>
  nested calls), and let the loop reach a branch that declares a type while the
  receiver, as the branches before it left it, has another. Then \<open>mergeAllOf\<close> throws
  the error that names \<^verbatim>\<open>$ref\<close>, the pointer of the schema being merged, and returns no
  schema, whatever bound above \<open>n\<close> the depth is given.
\<close>

theorem mergeAllOf_type_conflict:
  assumes "own_prop schema ''allOf'' = JArr subs"
    and "merge_branches (mergeAllOf n L spec fc) L spec fc rc (new_receiver schema) subs
           = Some (Inr (pre @ (subRef, sub) # post, r0), rc')"
    and "merge_fold L ref r0 pre = Inr r"
    and "field r ''type'' \<noteq> JUndefined" and "own_prop sub ''type'' \<noteq> JUndefined"
    and "field r ''type'' \<noteq> own_prop sub ''type''"
  shows "\<forall>m>n. mergeAllOf m L spec fc rc schema ref = Some (Inl (UncopatibleTypes ref), rc')"
proof -
  have "merge_fold L ref r0 (pre @ (subRef, sub) # post) = Inl (UncopatibleTypes ref)"
    using assms(3) merge_step_conflict [OF assms(4-6)]
    by (simp add: merge_fold_append)
  then have "mergeAllOf (Suc n) L spec fc rc schema ref = Some (Inl (UncopatibleTypes ref), rc')"
    using assms(2) by (simp add: mergeAllOf_array [OF assms(1)])
  then show ?thesis
    by (auto intro: mergeAllOf_mono simp: Suc_le_eq)
qed

theorem mergeAllOf_type_conflict_witness:
  "own_prop clash_schema ''allOf''
     = JArr [JObj [(''type'', JStr ''object'')], JObj [(''type'', JStr ''string'')]]
   \<and> merge_branches (mergeAllOf 1 std_lib doc_merge False) std_lib doc_merge False new_RefCounter
        (new_receiver clash_schema)
        [JObj [(''type'', JStr ''object'')], JObj [(''type'', JStr ''string'')]]
       = Some (Inr ([(JUndefined, JObj [(''type'', JStr ''object'')])]
                    @ (JUndefined, JObj [(''type'', JStr ''string'')]) # [],
                  [(''allOf'', JUndefined), (''parentRefs'', JArr [])]), new_RefCounter)
   \<and> merge_fold std_lib (JStr ''#/components/schemas/Clash'')
        [(''allOf'', JUndefined), (''parentRefs'', JArr [])]
        [(JUndefined, JObj [(''type'', JStr ''object'')])]
       = Inr [(''type'', JStr ''object''), (''allOf'', JUndefined), (''parentRefs'', JArr [])]
   \<and> mergeAllOf 2 std_lib doc_merge False new_RefCounter clash_schema
        (JStr ''#/components/schemas/Clash'')
       = Some (Inl (UncopatibleTypes (JStr ''#/components/schemas/Clash'')), new_RefCounter)"
proof -
  have h1: "own_prop clash_schema ''allOf''
     = JArr [JObj [(''type'', JStr ''object'')], JObj [(''type'', JStr ''string'')]]"
    by code_simp
  have h2: "merge_branches (mergeAllOf 1 std_lib doc_merge False) std_lib doc_merge False
        new_RefCounter (new_receiver clash_schema)
        [JObj [(''type'', JStr ''object'')], JObj [(''type'', JStr ''string'')]]
       = Some (Inr ([(JUndefined, JObj [(''type'', JStr ''object'')])]
                    @ (JUndefined, JObj [(''type'', JStr ''string'')]) # [],
                  [(''allOf'', JUndefined), (''parentRefs'', JArr [])]), new_RefCounter)"
    by (simp add: merge_branch_def deref_not_ref isRef_def own_prop_def field_def getprop_def
        js_or_def push_parentRefs_def new_receiver_def assign_def clash_schema_def
        mergeAllOf_no_allOf)
  have h3: "merge_fold std_lib (JStr ''#/components/schemas/Clash'')
        [(''allOf'', JUndefined), (''parentRefs'', JArr [])]
        [(JUndefined, JObj [(''type'', JStr ''object'')])]
       = Inr [(''type'', JStr ''object''), (''allOf'', JUndefined), (''parentRefs'', JArr [])]"
    by code_simp
  have h4: "field [(''type'', JStr ''object''), (''allOf'', JUndefined), (''parentRefs'', JArr [])] ''type''
      \<noteq> JUndefined" by code_simp
  have h5: "own_prop (JObj [(''type'', JStr ''string'')]) ''type'' \<noteq> JUndefined" by code_simp
  have h6: "field [(''type'', JStr ''object''), (''allOf'', JUndefined), (''parentRefs'', JArr [])] ''type''
      \<noteq> own_prop (JObj [(''type'', JStr ''string'')]) ''type''" by code_simp
  from mergeAllOf_type_conflict [OF h1 h2 h3 h4 h5 h6] h1 h2 h3 show ?thesis by simp
qed

subsection \<open>The title of the merged schema\<close>

lemma own_prop_JObj: "own_prop (JObj kvs) k = field kvs k"
  by (simp add: own_prop_def)

lemma mergeAllOf_result:
  assumes "mergeAllOf n L spec fc rc schema ref = Some (Inr result, rc')"
    and "own_prop schema ''allOf'' \<noteq> JUndefined"
  shows "\<exists>m subs entries r0 rf.
      n = Suc m \<and> own_prop schema ''allOf'' = JArr subs
    \<and> merge_branches (mergeAllOf m L spec fc) L spec fc rc (new_receiver schema) subs
        = Some (Inr (entries, r0), rc')
    \<and> merge_fold L ref r0 entries = Inr rf
    \<and> result = JObj (top_title L schema ref rf)"
proof -
  from assms(1) obtain m where n: "n = Suc m"
    by (cases n) (auto simp: mergeAllOf.simps)
  have g: "getprop schema ''allOf'' = Inr (own_prop schema ''allOf'')"
    using assms(2) by (rule getprop_defined)
  from assms(1) assms(2) obtain subs where subs: "own_prop schema ''allOf'' = JArr subs"
    unfolding n by (cases "own_prop schema ''allOf''") (auto simp: mergeAllOf.simps g)
  from assms(1) show ?thesis
    unfolding n mergeAllOf_array [OF subs]
    using subs by (auto split: option.splits sum.splits prod.splits)
qed

text \<open>
  C10, as stated, fails on a schema with no \<^verbatim>\<open>allOf\<close>: \<open>mergeAllOf\<close> returns it as it
  is, before any title is set. \<open>base_schema\<close> has no title, the pointer names a
  definition, and the schema returned has no title.
\<close>

theorem mergeAllOf_title_counterexample:
  "own_prop base_schema ''title'' = JUndefined
   \<and> isNamedDefinition std_lib (JStr ''#/components/schemas/Twin'')
   \<and> mergeAllOf 1 std_lib doc_merge False new_RefCounter base_schema
        (JStr ''#/components/schemas/Twin'') = Some (Inr base_schema, new_RefCounter)
   \<and> baseName std_lib (JStr ''#/components/schemas/Twin'') = JStr ''Twin''"
proof -
  have "getprop base_schema ''allOf'' = Inr JUndefined" by code_simp
  then have "mergeAllOf 1 std_lib doc_merge False new_RefCounter base_schema
        (JStr ''#/components/schemas/Twin'') = Some (Inr base_schema, new_RefCounter)"
    using mergeAllOf_no_allOf [of base_schema 0] by simp
  moreover have "own_prop base_schema ''title'' = JUndefined" by code_simp
  moreover have "isNamedDefinition std_lib (JStr ''#/components/schemas/Twin'')" by code_simp
  moreover have "baseName std_lib (JStr ''#/components/schemas/Twin'') = JStr ''Twin''" by code_simp
  ultimately show ?thesis by simp
qed

text \<open>
  C10, amended. When a schema that declares \<^verbatim>\<open>allOf\<close> has no title of its own and
  the \<^verbatim>\<open>$ref\<close> argument names a definition, the title of the schema \<open>mergeAllOf\<close>
  returns is the base name of \<^verbatim>\<open>$ref\<close>: it is written onto the receiver \<open>rf\<close> the loop
  ends with, over whatever title \<open>rf\<close> has by then, be it taken from a branch or
  inferred from the pointer of a branch.
\<close>

theorem mergeAllOf_title:
  assumes "mergeAllOf n L spec fc rc schema ref = Some (Inr result, rc')"
    and "own_prop schema ''allOf'' \<noteq> JUndefined"
    and "own_prop schema ''title'' = JUndefined" and "isNamedDefinition L ref"
  shows "own_prop result ''title'' = baseName L ref
    \<and> (\<exists>m subs entries r0 rf.
          n = Suc m \<and> own_prop schema ''allOf'' = JArr subs
        \<and> merge_branches (mergeAllOf m L spec fc) L spec fc rc (new_receiver schema) subs
            = Some (Inr (entries, r0), rc')
        \<and> merge_fold L ref r0 entries = Inr rf
        \<and> result = JObj (AList.update ''title'' (baseName L ref) rf))"
proof -
  from mergeAllOf_result [OF assms(1,2)] obtain m subs entries r0 rf where
    *: "n = Suc m" "own_prop schema ''allOf'' = JArr subs"
    "merge_branches (mergeAllOf m L spec fc) L spec fc rc (new_receiver schema) subs
        = Some (Inr (entries, r0), rc')"
    "merge_fold L ref r0 entries = Inr rf"
    and res: "result = JObj (top_title L schema ref rf)" by blast
  have t: "top_title L schema ref rf = AList.update ''title'' (baseName L ref) rf"
    using assms(3,4) by (simp add: top_title_def)
  have "own_prop result ''title'' = baseName L ref"
    by (simp add: res t own_prop_JObj field_update)
  with * res t show ?thesis by auto
qed


subsection \<open>Running the branches of a concrete schema\<close>

lemma merge_branch_run:
  assumes "deref L spec rc sub fc = (Inr resolved, rc1)"
    and "getprop sub ''$ref'' = Inr r"
    and "mergeAllOf_rec rc1 resolved (js_or r JUndefined) = Some (Inr subMerged, rc2)"
    and "getprop subMerged ''parentRefs'' = Inr parents"
    and "spread_args (js_or parents (JArr [])) = Inr items"
    and "push_parentRefs receiver items = Inr receiver'"
  shows "merge_branch mergeAllOf_rec L spec fc rc receiver sub
           = Some (Inr ((js_or r JUndefined, subMerged), receiver'), rc2)"
  using assms by (simp add: merge_branch_def)

lemma merge_branches_run:
  assumes "merge_branch mergeAllOf_rec L spec fc rc receiver sub = Some (Inr (entry, receiver1), rc1)"
    and "merge_branches mergeAllOf_rec L spec fc rc1 receiver1 rest = Some (Inr (entries, receiver2), rc2)"
  shows "merge_branches mergeAllOf_rec L spec fc rc receiver (sub # rest)
           = Some (Inr (entry # entries, receiver2), rc2)"
  using assms by simp

lemma child_branches:
  "merge_branches (mergeAllOf 1 std_lib doc_merge False) std_lib doc_merge False new_RefCounter
      (new_receiver child_schema) [ref_to ''#/components/schemas/Base'', extra_schema]
   = Some (Inr ([(JStr ''#/components/schemas/Base'', base_schema), (JUndefined, extra_schema)],
               [(''allOf'', JUndefined), (''parentRefs'', JArr [])]),
           visit new_RefCounter ''#/components/schemas/Base'')"
proof -
  let ?rc = "visit new_RefCounter ''#/components/schemas/Base''"
  let ?r0 = "[(''allOf'', JUndefined), (''parentRefs'', JArr [])]"
  have r0: "new_receiver child_schema = ?r0" by code_simp
  have d1: "deref std_lib doc_merge new_RefCounter (ref_to ''#/components/schemas/Base'') False
          = (Inr base_schema, ?rc)"
  proof -
    have a: "isRef (ref_to ''#/components/schemas/Base'')" by code_simp
    have b: "byRef std_lib doc_merge (own_prop (ref_to ''#/components/schemas/Base'') ''$ref'')
          = Inr base_schema" by code_simp
    have c: "\<not> isRef base_schema" by code_simp
    have k: "ref_key (ref_to ''#/components/schemas/Base'') = ''#/components/schemas/Base''"
      by code_simp
    have v: "\<not> visited new_RefCounter ''#/components/schemas/Base''" by code_simp
    from deref_inline [OF a b _ c, of new_RefCounter False] v show ?thesis by (simp add: k)
  qed
  have m1: "mergeAllOf 1 std_lib doc_merge False ?rc base_schema
              (js_or (JStr ''#/components/schemas/Base'') JUndefined) = Some (Inr base_schema, ?rc)"
  proof -
    have "getprop base_schema ''allOf'' = Inr JUndefined" by code_simp
    then show ?thesis using mergeAllOf_no_allOf [of base_schema 0] by simp
  qed
  have b1: "merge_branch (mergeAllOf 1 std_lib doc_merge False) std_lib doc_merge False
        new_RefCounter ?r0 (ref_to ''#/components/schemas/Base'')
      = Some (Inr ((js_or (JStr ''#/components/schemas/Base'') JUndefined, base_schema), ?r0), ?rc)"
  proof -
    have g: "getprop (ref_to ''#/components/schemas/Base'') ''$ref''
               = Inr (JStr ''#/components/schemas/Base'')" by code_simp
    have p: "getprop base_schema ''parentRefs'' = Inr JUndefined" by code_simp
    have s: "spread_args (js_or JUndefined (JArr [])) = Inr []" by code_simp
    have u: "push_parentRefs ?r0 [] = Inr ?r0" by code_simp
    show ?thesis
      by (rule merge_branch_run
          [where mergeAllOf_rec = "mergeAllOf 1 std_lib doc_merge False", OF d1 g m1 p s u])
  qed
  have d2: "deref std_lib doc_merge ?rc extra_schema False = (Inr extra_schema, ?rc)"
  proof -
    have "\<not> isRef extra_schema" by code_simp
    then show ?thesis by (rule deref_not_ref)
  qed
  have m2: "mergeAllOf 1 std_lib doc_merge False ?rc extra_schema (js_or JUndefined JUndefined)
      = Some (Inr extra_schema, ?rc)"
  proof -
    have "getprop extra_schema ''allOf'' = Inr JUndefined" by code_simp
    then show ?thesis using mergeAllOf_no_allOf [of extra_schema 0] by simp
  qed
  have b2: "merge_branch (mergeAllOf 1 std_lib doc_merge False) std_lib doc_merge False
        ?rc ?r0 extra_schema
      = Some (Inr ((js_or JUndefined JUndefined, extra_schema), ?r0), ?rc)"
  proof -
    have g: "getprop extra_schema ''$ref'' = Inr JUndefined" by code_simp
    have p: "getprop extra_schema ''parentRefs'' = Inr JUndefined" by code_simp
    have s: "spread_args (js_or JUndefined (JArr [])) = Inr []" by code_simp
    have u: "push_parentRefs ?r0 [] = Inr ?r0" by code_simp
    show ?thesis
      by (rule merge_branch_run
          [where mergeAllOf_rec = "mergeAllOf 1 std_lib doc_merge False", OF d2 g m2 p s u])
  qed
  have j1: "js_or (JStr ''#/components/schemas/Base'') JUndefined = JStr ''#/components/schemas/Base''"
    by code_simp
  have j2: "js_or JUndefined JUndefined = JUndefined" by code_simp
  show ?thesis
    unfolding r0 using b1 b2 by (simp add: j1 j2)
qed


theorem mergeAllOf_title_witness:
  "mergeAllOf (Suc 1) std_lib doc_merge False new_RefCounter child_schema
      (JStr ''#/components/schemas/Child'')
     = Some (Inr (JObj [(''properties'', JObj [(''a'', JObj []), (''b'', JObj [])]),
                        (''required'', JArr [JStr ''a'', JStr ''b'']),
                        (''type'', JStr ''object''), (''allOf'', JUndefined),
                        (''parentRefs'', JArr [JStr ''#/components/schemas/Base'']),
                        (''title'', JStr ''Child'')]),
             visit new_RefCounter ''#/components/schemas/Base'')
   \<and> own_prop child_schema ''allOf'' \<noteq> JUndefined
   \<and> own_prop child_schema ''title'' = JUndefined
   \<and> isNamedDefinition std_lib (JStr ''#/components/schemas/Child'')
   \<and> baseName std_lib (JStr ''#/components/schemas/Child'') = JStr ''Child''
   \<and> merge_fold std_lib (JStr ''#/components/schemas/Child'')
        [(''allOf'', JUndefined), (''parentRefs'', JArr [])]
        [(JStr ''#/components/schemas/Base'', base_schema), (JUndefined, extra_schema)]
       = Inr [(''properties'', JObj [(''a'', JObj []), (''b'', JObj [])]),
              (''required'', JArr [JStr ''a'', JStr ''b'']),
              (''type'', JStr ''object''), (''allOf'', JUndefined),
              (''parentRefs'', JArr [JStr ''#/components/schemas/Base'']),
              (''title'', JStr ''Base'')]
   \<and> own_prop (JObj [(''properties'', JObj [(''a'', JObj []), (''b'', JObj [])]),
                        (''required'', JArr [JStr ''a'', JStr ''b'']),
                        (''type'', JStr ''object''), (''allOf'', JUndefined),
                        (''parentRefs'', JArr [JStr ''#/components/schemas/Base'']),
                        (''title'', JStr ''Child'')]) ''title''
       = baseName std_lib (JStr ''#/components/schemas/Child'')"
proof -
  let ?res = "JObj [(''properties'', JObj [(''a'', JObj []), (''b'', JObj [])]),
                        (''required'', JArr [JStr ''a'', JStr ''b'']),
                        (''type'', JStr ''object''), (''allOf'', JUndefined),
                        (''parentRefs'', JArr [JStr ''#/components/schemas/Base'']),
                        (''title'', JStr ''Child'')]"
  have a: "own_prop child_schema ''allOf'' = JArr [ref_to ''#/components/schemas/Base'', extra_schema]"
    by code_simp
  have f: "merge_fold std_lib (JStr ''#/components/schemas/Child'')
        [(''allOf'', JUndefined), (''parentRefs'', JArr [])]
        [(JStr ''#/components/schemas/Base'', base_schema), (JUndefined, extra_schema)]
       = Inr [(''properties'', JObj [(''a'', JObj []), (''b'', JObj [])]),
              (''required'', JArr [JStr ''a'', JStr ''b'']),
              (''type'', JStr ''object''), (''allOf'', JUndefined),
              (''parentRefs'', JArr [JStr ''#/components/schemas/Base'']),
              (''title'', JStr ''Base'')]"
    by code_simp
  have t: "JObj (top_title std_lib child_schema (JStr ''#/components/schemas/Child'')
              [(''properties'', JObj [(''a'', JObj []), (''b'', JObj [])]),
              (''required'', JArr [JStr ''a'', JStr ''b'']),
              (''type'', JStr ''object''), (''allOf'', JUndefined),
              (''parentRefs'', JArr [JStr ''#/components/schemas/Base'']),
              (''title'', JStr ''Base'')]) = ?res"
    by code_simp
  have h1: "mergeAllOf (Suc 1) std_lib doc_merge False new_RefCounter child_schema
      (JStr ''#/components/schemas/Child'')
     = Some (Inr ?res, visit new_RefCounter ''#/components/schemas/Base'')"
    by (simp only: mergeAllOf_array [OF a] child_branches f t option.case prod.case sum.case)
  have h2: "own_prop child_schema ''allOf'' \<noteq> JUndefined" by (simp add: a)
  have h3: "own_prop child_schema ''title'' = JUndefined" by code_simp
  have h4: "isNamedDefinition std_lib (JStr ''#/components/schemas/Child'')" by code_simp
  have b: "baseName std_lib (JStr ''#/components/schemas/Child'') = JStr ''Child''" by code_simp
  from mergeAllOf_title [OF h1 h2 h3 h4] h1 h2 h3 h4 b f show ?thesis by simp
qed

subsection \<open>The parent references\<close>

lemma merge_branch_parentRefs:
  assumes "merge_branch mergeAllOf_rec L spec fc rc receiver sub = Some (Inr ((r, m), receiver'), rc')"
  shows "r = js_or (own_prop sub ''$ref'') JUndefined
    \<and> (\<exists>rc1 resolved. deref L spec rc sub fc = (Inr resolved, rc1)
          \<and> mergeAllOf_rec rc1 resolved r = Some (Inr m, rc'))
    \<and> (\<exists>ps. field receiver ''parentRefs'' = JArr ps
          \<and> field receiver' ''parentRefs'' = JArr (ps @ parent_items m))
    \<and> (distinct (map fst receiver) \<longrightarrow> distinct (map fst receiver'))"
proof -
  obtain d rc1 where d: "deref L spec rc sub fc = (d, rc1)" by (cases "deref L spec rc sub fc")
  from assms d obtain resolved where res: "d = Inr resolved"
    by (cases d) (auto simp: merge_branch_def)
  from assms d res obtain r0 where g: "getprop sub ''$ref'' = Inr r0"
    by (cases "getprop sub ''$ref''") (auto simp: merge_branch_def)
  then have r0: "r0 = own_prop sub ''$ref''"
    by (auto simp: getprop_def split: if_splits)
  from assms d res g obtain x where x: "mergeAllOf_rec rc1 resolved (js_or r0 JUndefined) = Some x"
    by (cases "mergeAllOf_rec rc1 resolved (js_or r0 JUndefined)") (auto simp: merge_branch_def)
  from assms d res g x obtain m' rc2 where x': "x = (Inr m', rc2)"
    by (cases x; cases "fst x") (auto simp: merge_branch_def)
  from assms d res g x x' obtain parents where p: "getprop m' ''parentRefs'' = Inr parents"
    by (cases "getprop m' ''parentRefs''") (auto simp: merge_branch_def)
  then have parents: "parents = own_prop m' ''parentRefs''"
    by (auto simp: getprop_def split: if_splits)
  from assms d res g x x' p obtain items where
    i: "spread_args (js_or parents (JArr [])) = Inr items"
    by (cases "spread_args (js_or parents (JArr []))") (auto simp: merge_branch_def)
  from assms d res g x x' p i obtain rcv where u: "push_parentRefs receiver items = Inr rcv"
    by (cases "push_parentRefs receiver items") (auto simp: merge_branch_def)
  from assms d res g x x' p i u have eq: "r = js_or r0 JUndefined" "m = m'" "receiver' = rcv" "rc' = rc2"
    by (auto simp: merge_branch_def)
  have items: "parent_items m = items"
    using i by (simp add: parent_items_def eq parents)
  from field_push_parentRefs [OF u] obtain ps where
    "field receiver ''parentRefs'' = JArr ps" "field rcv ''parentRefs'' = JArr (ps @ items)"
    by blast
  then show ?thesis
    using d res x x' eq r0 items distinct_push_parentRefs [OF u] by auto
qed


lemma merge_branches_parentRefs:
  "merge_branches mergeAllOf_rec L spec fc rc receiver subs = Some (Inr (entries, receiver'), rc') \<Longrightarrow>
   field receiver ''parentRefs'' = JArr ps \<Longrightarrow>
     field receiver' ''parentRefs'' = JArr (ps @ concat (map (\<lambda>entry. parent_items (snd entry)) entries))
   \<and> (distinct (map fst receiver) \<longrightarrow> distinct (map fst receiver'))
   \<and> list_all2 (\<lambda>sub entry. fst entry = js_or (own_prop sub ''$ref'') JUndefined
          \<and> (\<exists>rc1 resolved rc2 rc3. deref L spec rc1 sub fc = (Inr resolved, rc2)
                \<and> mergeAllOf_rec rc2 resolved (fst entry) = Some (Inr (snd entry), rc3)))
        subs entries"
proof (induction subs arbitrary: rc receiver ps entries)
  case Nil
  then show ?case by simp
next
  case (Cons sub subs)
  from Cons.prems(1) obtain b where b: "merge_branch mergeAllOf_rec L spec fc rc receiver sub = Some b"
    by (cases "merge_branch mergeAllOf_rec L spec fc rc receiver sub") auto
  from Cons.prems(1) b obtain r m receiver1 rc1 where b': "b = (Inr ((r, m), receiver1), rc1)"
    by (cases b; cases "fst b") (auto split: option.splits)
  from Cons.prems(1) b b' obtain c where
    c: "merge_branches mergeAllOf_rec L spec fc rc1 receiver1 subs = Some c"
    by (cases "merge_branches mergeAllOf_rec L spec fc rc1 receiver1 subs") auto
  from Cons.prems(1) b b' c obtain es where c': "c = (Inr (es, receiver'), rc')"
    and entries: "entries = (r, m) # es"
    by (cases c; cases "fst c") auto
  from merge_branch_parentRefs [OF b [unfolded b']] Cons.prems(2) have
    r: "r = js_or (own_prop sub ''$ref'') JUndefined"
    and run: "\<exists>rc1' resolved. deref L spec rc sub fc = (Inr resolved, rc1')
          \<and> mergeAllOf_rec rc1' resolved r = Some (Inr m, rc1)"
    and p1: "field receiver1 ''parentRefs'' = JArr (ps @ parent_items m)"
    and d1: "distinct (map fst receiver) \<longrightarrow> distinct (map fst receiver1)"
    by auto
  from Cons.IH [OF c [unfolded c'] p1] have
    "field receiver' ''parentRefs''
       = JArr ((ps @ parent_items m) @ concat (map (\<lambda>entry. parent_items (snd entry)) es))"
    and "distinct (map fst receiver1) \<longrightarrow> distinct (map fst receiver')"
    and "list_all2 (\<lambda>sub entry. fst entry = js_or (own_prop sub ''$ref'') JUndefined
          \<and> (\<exists>rc1 resolved rc2 rc3. deref L spec rc1 sub fc = (Inr resolved, rc2)
                \<and> mergeAllOf_rec rc2 resolved (fst entry) = Some (Inr (snd entry), rc3)))
        subs es"
    by auto
  with r run d1 show ?case
    unfolding entries by auto
qed

lemma merge_step_parents:
  assumes "merge_step L ref r (subRef, sub) = Inr r'"
    and "distinct (map fst r)" and "field r ''parentRefs'' = JArr ps"
  shows "field r' ''parentRefs'' = JArr (ps @ (if truthy subRef then [subRef] else []))"
proof -
  from assms(1) obtain r3 where
    r3: "merge_required (merge_properties (merge_type r sub) sub) sub = Inr r3"
    and r': "merge_parent L (assign (assign [] (own_enumerable sub)) r3) subRef = Inr r'"
    by (rule merge_stepD)
  have d3: "distinct (map fst r3)"
    using r3 assms(2)
    by (auto intro: distinct_merge_required distinct_merge_properties distinct_merge_type)
  have f3: "field r3 ''parentRefs'' = JArr ps"
    using assms(3)
    by (simp add: field_merge_required [OF r3] field_merge_properties field_merge_type)
  have "''parentRefs'' \<in> keys r"
    using assms(3) field_absent [of "''parentRefs''" r] by auto
  then have k3: "''parentRefs'' \<in> keys r3"
    by (auto simp: keys_merge_required [OF r3] keys_merge_properties keys_merge_type)
  have "field (assign (assign [] (own_enumerable sub)) r3) ''parentRefs'' = JArr ps"
    using k3 f3 by (simp add: field_assign_keys [OF d3])
  then show ?thesis
    using field_merge_parent_parentRefs [OF r'] by (auto split: if_splits)
qed

lemma merge_fold_parentRefs:
  "merge_fold L ref r es = Inr rf \<Longrightarrow> distinct (map fst r) \<Longrightarrow>
   field r ''parentRefs'' = JArr ps \<Longrightarrow>
   field rf ''parentRefs'' = JArr (ps @ filter truthy (map fst es))"
proof (induction es arbitrary: r ps)
  case Nil
  then show ?case by simp
next
  case (Cons e es)
  obtain subRef sub where e: "e = (subRef, sub)" by (cases e)
  from Cons.prems(1) obtain r1 where s: "merge_step L ref r (subRef, sub) = Inr r1"
    and f: "merge_fold L ref r1 es = Inr rf"
    by (auto simp: e split: sum.splits)
  note p1 = merge_step_parents [OF s Cons.prems(2,3)]
  note d1 = merge_step_distinct [OF s Cons.prems(2)]
  from Cons.IH [OF f d1 p1] show ?case by (simp add: e)
qed

lemma new_receiver_parentRefs:
  "field (new_receiver schema) ''parentRefs'' = JArr [] \<and> distinct (map fst (new_receiver schema))"
proof -
  have d: "distinct (map fst [(''allOf'', JUndefined), (''parentRefs'', JArr [])])" by simp
  have "field [(''allOf'', JUndefined), (''parentRefs'', JArr [])] ''parentRefs'' = JArr []"
    by (simp add: field_def)
  then show ?thesis
    by (simp add: new_receiver_def field_assign_keys [OF d] keys_Cons keys_Nil distinct_assign)
qed

lemma own_pointers_entries:
  "list_all2 (\<lambda>sub entry. fst entry = js_or (own_prop sub ''$ref'') JUndefined \<and> P sub entry)
     subs entries \<Longrightarrow>
   filter truthy (map fst entries) = own_pointers subs"
  unfolding own_pointers_def
  by (induction subs entries rule: list_all2_induct) (auto simp: js_or_def)

text \<open>
  C6. When \<open>mergeAllOf\<close> returns for a schema that declares \<^verbatim>\<open>allOf\<close>, its branches
  were dereferenced and merged one after the other, each by the nested call on what it
  resolved to, and the \<^verbatim>\<open>parentRefs\<close> of the result are, in this order: for each
  branch in turn, the \<^verbatim>\<open>parentRefs\<close> of its merged schema (themselves built the same
  way, one level down); then, for each branch in turn that is a reference, its own
  pointer. A non-empty pointer string is truthy, so the pointer of every reference the
  specification allows is among them.
\<close>

theorem mergeAllOf_parentRefs:
  assumes "mergeAllOf n L spec fc rc schema ref = Some (Inr result, rc')"
    and "own_prop schema ''allOf'' \<noteq> JUndefined"
  shows "\<exists>m subs entries r0.
      n = Suc m \<and> own_prop schema ''allOf'' = JArr subs
    \<and> merge_branches (mergeAllOf m L spec fc) L spec fc rc (new_receiver schema) subs
        = Some (Inr (entries, r0), rc')
    \<and> list_all2 (\<lambda>sub entry. fst entry = js_or (own_prop sub ''$ref'') JUndefined
          \<and> (\<exists>rc1 resolved rc2 rc3. deref L spec rc1 sub fc = (Inr resolved, rc2)
                \<and> mergeAllOf m L spec fc rc2 resolved (fst entry) = Some (Inr (snd entry), rc3)))
        subs entries
    \<and> own_prop result ''parentRefs''
        = JArr (concat (map (\<lambda>entry. parent_items (snd entry)) entries) @ own_pointers subs)
    \<and> (\<forall>sub\<in>set subs. \<forall>p. own_prop sub ''$ref'' = JStr p \<and> p \<noteq> []
          \<longrightarrow> JStr p \<in> set (own_pointers subs))"
proof -
  from mergeAllOf_result [OF assms] obtain m subs entries r0 rf where
    n: "n = Suc m" and subs: "own_prop schema ''allOf'' = JArr subs"
    and br: "merge_branches (mergeAllOf m L spec fc) L spec fc rc (new_receiver schema) subs
        = Some (Inr (entries, r0), rc')"
    and fo: "merge_fold L ref r0 entries = Inr rf"
    and res: "result = JObj (top_title L schema ref rf)" by blast
  note nr = new_receiver_parentRefs [of schema]
  from merge_branches_parentRefs [OF br conjunct1 [OF nr]] nr have
    p0: "field r0 ''parentRefs'' = JArr (concat (map (\<lambda>entry. parent_items (snd entry)) entries))"
    and d0: "distinct (map fst r0)"
    and la: "list_all2 (\<lambda>sub entry. fst entry = js_or (own_prop sub ''$ref'') JUndefined
          \<and> (\<exists>rc1 resolved rc2 rc3. deref L spec rc1 sub fc = (Inr resolved, rc2)
                \<and> mergeAllOf m L spec fc rc2 resolved (fst entry) = Some (Inr (snd entry), rc3)))
        subs entries"
    by auto
  have "field rf ''parentRefs''
      = JArr (concat (map (\<lambda>entry. parent_items (snd entry)) entries) @ filter truthy (map fst entries))"
    using fo d0 p0 by (rule merge_fold_parentRefs)
  then have "field rf ''parentRefs''
      = JArr (concat (map (\<lambda>entry. parent_items (snd entry)) entries) @ own_pointers subs)"
    using own_pointers_entries [OF la] by simp
  then have pr: "own_prop result ''parentRefs''
      = JArr (concat (map (\<lambda>entry. parent_items (snd entry)) entries) @ own_pointers subs)"
    by (simp add: res own_prop_JObj top_title_def field_update)
  have own: "\<forall>sub\<in>set subs. \<forall>p. own_prop sub ''$ref'' = JStr p \<and> p \<noteq> []
          \<longrightarrow> JStr p \<in> set (own_pointers subs)"
    by (force simp: own_pointers_def)
  from n subs br la pr own show ?thesis by blast
qed


lemma with_final_state: "map_option fst x = Some a \<Longrightarrow> x = Some (a, snd (the x))"
  by (cases x) auto

theorem mergeAllOf_parentRefs_witness:
  "map_option fst (mergeAllOf 3 std_lib doc_merge False new_RefCounter grand_schema
          (JStr ''#/components/schemas/Grand''))
     = Some (Inr (JObj [(''properties'', JObj [(''a'', JObj []), (''b'', JObj [])]),
           (''required'', JArr [JStr ''a'', JStr ''b'']),
           (''type'', JStr ''object''), (''allOf'', JUndefined),
           (''parentRefs'', JArr [JStr ''#/components/schemas/Base'', JStr ''#/components/schemas/Child'']),
           (''title'', JStr ''Grand'')]))
   \<and> own_prop grand_schema ''allOf'' = JArr [ref_to ''#/components/schemas/Child'']
   \<and> own_pointers [ref_to ''#/components/schemas/Child''] = [JStr ''#/components/schemas/Child'']
   \<and> (\<exists>entries. list_all2 (\<lambda>sub entry. fst entry = js_or (own_prop sub ''$ref'') JUndefined)
                    [ref_to ''#/components/schemas/Child''] entries
         \<and> JArr [JStr ''#/components/schemas/Base'', JStr ''#/components/schemas/Child'']
            = JArr (concat (map (\<lambda>entry. parent_items (snd entry)) entries)
                    @ [JStr ''#/components/schemas/Child'']))"
proof -
  let ?res = "JObj [(''properties'', JObj [(''a'', JObj []), (''b'', JObj [])]),
           (''required'', JArr [JStr ''a'', JStr ''b'']),
           (''type'', JStr ''object''), (''allOf'', JUndefined),
           (''parentRefs'', JArr [JStr ''#/components/schemas/Base'', JStr ''#/components/schemas/Child'']),
           (''title'', JStr ''Grand'')]"
  have e: "map_option fst (mergeAllOf 3 std_lib doc_merge False new_RefCounter grand_schema
          (JStr ''#/components/schemas/Grand'')) = Some (Inr ?res)"
    by code_simp
  note h1 = with_final_state [OF e]
  have a: "own_prop grand_schema ''allOf'' = JArr [ref_to ''#/components/schemas/Child'']"
    by code_simp
  then have h2: "own_prop grand_schema ''allOf'' \<noteq> JUndefined" by simp
  have o: "own_pointers [ref_to ''#/components/schemas/Child''] = [JStr ''#/components/schemas/Child'']"
    by code_simp
  have p: "own_prop ?res ''parentRefs''
      = JArr [JStr ''#/components/schemas/Base'', JStr ''#/components/schemas/Child'']"
    by code_simp
  from mergeAllOf_parentRefs [OF h1 h2] obtain m subs entries r0 where
    s: "own_prop grand_schema ''allOf'' = JArr subs"
    and la: "list_all2 (\<lambda>sub entry. fst entry = js_or (own_prop sub ''$ref'') JUndefined
          \<and> (\<exists>rc1 resolved rc2 rc3. deref std_lib doc_merge rc1 sub False = (Inr resolved, rc2)
                \<and> mergeAllOf m std_lib doc_merge False rc2 resolved (fst entry)
                    = Some (Inr (snd entry), rc3)))
        subs entries"
    and pr: "own_prop ?res ''parentRefs''
        = JArr (concat (map (\<lambda>entry. parent_items (snd entry)) entries) @ own_pointers subs)"
    by blast
  from s a have subs: "subs = [ref_to ''#/components/schemas/Child'']" by simp
  from la have la': "list_all2 (\<lambda>sub entry. fst entry = js_or (own_prop sub ''$ref'') JUndefined)
       subs entries"
    by (rule list_all2_mono) simp
  show ?thesis
    using e a o la' pr unfolding subs p o by blast
qed

subsection \<open>The merge is by category of field\<close>

lemma merge_branch_other:
  assumes "merge_branch mergeAllOf_rec L spec fc rc receiver sub = Some (Inr (e, receiver'), rc')"
    and "k \<noteq> ''parentRefs''"
  shows "field receiver' k = field receiver k"
proof -
  from assms(1) obtain items where "push_parentRefs receiver items = Inr receiver'"
    by (auto simp: merge_branch_def split: prod.splits sum.splits option.splits)
  from field_push_parentRefs [OF this] assms(2) show ?thesis by simp
qed

lemma merge_branches_other:
  "merge_branches mergeAllOf_rec L spec fc rc receiver subs = Some (Inr (entries, receiver'), rc') \<Longrightarrow>
   k \<noteq> ''parentRefs'' \<Longrightarrow> field receiver' k = field receiver k"
proof (induction subs arbitrary: rc receiver entries)
  case Nil
  then show ?case by simp
next
  case (Cons sub subs)
  from Cons.prems(1) obtain e receiver1 rc1 es where
    b: "merge_branch mergeAllOf_rec L spec fc rc receiver sub = Some (Inr (e, receiver1), rc1)"
    and c: "merge_branches mergeAllOf_rec L spec fc rc1 receiver1 subs = Some (Inr (es, receiver'), rc')"
    by (auto split: option.splits sum.splits prod.splits)
  from Cons.IH [OF c Cons.prems(2)] merge_branch_other [OF b Cons.prems(2)] show ?case by simp
qed

lemma new_receiver_fields:
  assumes "distinct (map fst (own_enumerable schema))"
  shows "field (new_receiver schema) k
     = (if k = ''allOf'' then JUndefined else if k = ''parentRefs'' then JArr []
        else field (own_enumerable schema) k)"
proof -
  have d: "distinct (map fst [(''allOf'', JUndefined), (''parentRefs'', JArr [])])" by simp
  have e: "field (assign [] (own_enumerable schema)) k = field (own_enumerable schema) k"
    by (simp add: field_def map_of_assign [OF assms])
  show ?thesis
    by (simp add: new_receiver_def field_assign_keys [OF d] keys_Cons keys_Nil e)
      (simp add: field_def)
qed


text \<open>
  C4. Let \<open>mergeAllOf\<close> return for a schema that declares \<^verbatim>\<open>allOf\<close> (objects are taken
  to have each key once, as JavaScript objects do). Its branches were dereferenced and
  merged in list order into \<open>entries\<close>; the receiver the loop starts from, \<open>r0\<close>, has the
  fields of the schema itself, with \<^verbatim>\<open>allOf\<close> undefined; the loop takes \<open>r0\<close> over
  \<open>entries\<close> in order to \<open>rf\<close>, and the result has the fields of \<open>rf\<close>, the title
  apart. At every branch \<open>sub\<close> of \<open>entries\<close>, with \<open>r\<close> the receiver the branches before
  it have made and \<open>r'\<close> the receiver after it:
  \<^item> a type the branch declares replaces that of the receiver;
  \<^item> when the branch has properties, those of \<open>r'\<close> are a new object that has, for each
    key, the value of the branch if the branch has the key (the value as it is, nothing
    merged into it) and the value of the receiver otherwise;
  \<^item> the \<^verbatim>\<open>required\<close> of \<open>r'\<close> is that of the receiver followed by that of the branch,
    every element kept;
  \<^item> any other field keeps the value of the receiver when the receiver has the key, and
    takes that of the branch only when it has not; so does a title the receiver has.
\<close>

theorem mergeAllOf_asymmetry:
  assumes "mergeAllOf n L spec fc rc schema ref = Some (Inr result, rc')"
    and "own_prop schema ''allOf'' \<noteq> JUndefined"
    and "distinct (map fst (own_enumerable schema))"
  shows "\<exists>m subs entries r0 rf.
      n = Suc m \<and> own_prop schema ''allOf'' = JArr subs
    \<and> merge_branches (mergeAllOf m L spec fc) L spec fc rc (new_receiver schema) subs
        = Some (Inr (entries, r0), rc')
    \<and> list_all2 (\<lambda>sub entry. fst entry = js_or (own_prop sub ''$ref'') JUndefined
          \<and> (\<exists>rc1 resolved rc2 rc3. deref L spec rc1 sub fc = (Inr resolved, rc2)
                \<and> mergeAllOf m L spec fc rc2 resolved (fst entry) = Some (Inr (snd entry), rc3)))
        subs entries
    \<and> (\<forall>k. k \<notin> {''allOf'', ''parentRefs''} \<longrightarrow> field r0 k = own_prop schema k)
    \<and> field r0 ''allOf'' = JUndefined
    \<and> merge_fold L ref r0 entries = Inr rf
    \<and> (\<forall>k. k \<noteq> ''title'' \<longrightarrow> own_prop result k = field rf k)
    \<and> (\<forall>pre subRef sub post.
          entries = pre @ (subRef, sub) # post \<and> distinct (map fst (own_enumerable sub)) \<longrightarrow>
          (\<exists>r r'.
              merge_fold L ref r0 pre = Inr r
            \<and> merge_step L ref r (subRef, sub) = Inr r'
            \<and> merge_fold L ref r' post = Inr rf
            \<and> field r' ''type''
                = (if own_prop sub ''type'' \<noteq> JUndefined then own_prop sub ''type''
                   else field r ''type'')
            \<and> (own_prop sub ''properties'' = JUndefined
                 \<longrightarrow> field r' ''properties'' = field r ''properties'')
            \<and> (own_prop sub ''properties'' \<noteq> JUndefined
                 \<and> distinct (map fst (own_enumerable (js_or (field r ''properties'') (JObj []))))
                 \<and> distinct (map fst (own_enumerable (own_prop sub ''properties'')))
                \<longrightarrow> (\<exists>us. field r' ''properties'' = JObj us
                      \<and> (\<forall>k. field us k
                            = (if k \<in> keys (own_enumerable (own_prop sub ''properties''))
                               then field (own_enumerable (own_prop sub ''properties'')) k
                               else field (own_enumerable (js_or (field r ''properties'') (JObj []))) k))))
            \<and> (own_prop sub ''required'' = JUndefined
                 \<longrightarrow> field r' ''required'' = field r ''required'')
            \<and> (\<forall>xs ys. js_or (field r ''required'') (JArr []) = JArr xs
                    \<and> own_prop sub ''required'' = JArr ys
                  \<longrightarrow> field r' ''required'' = JArr (xs @ ys))
            \<and> (\<forall>k. k \<notin> {''type'', ''properties'', ''required'', ''parentRefs'', ''title''}
                  \<longrightarrow> field r' k = (if k \<in> keys r then field r k else field (own_enumerable sub) k))
            \<and> (field r ''title'' \<noteq> JUndefined \<longrightarrow> field r' ''title'' = field r ''title'')))"
proof -
  from mergeAllOf_result [OF assms(1,2)] obtain m subs entries r0 rf where
    n: "n = Suc m" and subs: "own_prop schema ''allOf'' = JArr subs"
    and br: "merge_branches (mergeAllOf m L spec fc) L spec fc rc (new_receiver schema) subs
        = Some (Inr (entries, r0), rc')"
    and fo: "merge_fold L ref r0 entries = Inr rf"
    and res: "result = JObj (top_title L schema ref rf)" by blast
  note nr = new_receiver_parentRefs [of schema]
  from merge_branches_parentRefs [OF br conjunct1 [OF nr]] nr have
    d0: "distinct (map fst r0)"
    and la: "list_all2 (\<lambda>sub entry. fst entry = js_or (own_prop sub ''$ref'') JUndefined
          \<and> (\<exists>rc1 resolved rc2 rc3. deref L spec rc1 sub fc = (Inr resolved, rc2)
                \<and> mergeAllOf m L spec fc rc2 resolved (fst entry) = Some (Inr (snd entry), rc3)))
        subs entries"
    by auto
  from assms(2) obtain kvs where kvs: "schema = JObj kvs"
    using own_prop_object by blast
  have own: "own_prop schema k = field (own_enumerable schema) k" for k
    by (simp add: kvs own_prop_def)
  have f0: "\<forall>k. k \<notin> {''allOf'', ''parentRefs''} \<longrightarrow> field r0 k = own_prop schema k"
    using merge_branches_other [OF br] new_receiver_fields [OF assms(3)] by (simp add: own)
  have a0: "field r0 ''allOf'' = JUndefined"
    using merge_branches_other [OF br, of "''allOf''"] new_receiver_fields [OF assms(3), of "''allOf''"]
    by simp
  have rs: "\<forall>k. k \<noteq> ''title'' \<longrightarrow> own_prop result k = field rf k"
    by (simp add: res own_prop_JObj top_title_def field_update)
  have each: "\<forall>pre subRef sub post.
          entries = pre @ (subRef, sub) # post \<and> distinct (map fst (own_enumerable sub)) \<longrightarrow>
          (\<exists>r r'.
              merge_fold L ref r0 pre = Inr r
            \<and> merge_step L ref r (subRef, sub) = Inr r'
            \<and> merge_fold L ref r' post = Inr rf
            \<and> field r' ''type''
                = (if own_prop sub ''type'' \<noteq> JUndefined then own_prop sub ''type''
                   else field r ''type'')
            \<and> (own_prop sub ''properties'' = JUndefined
                 \<longrightarrow> field r' ''properties'' = field r ''properties'')
            \<and> (own_prop sub ''properties'' \<noteq> JUndefined
                 \<and> distinct (map fst (own_enumerable (js_or (field r ''properties'') (JObj []))))
                 \<and> distinct (map fst (own_enumerable (own_prop sub ''properties'')))
                \<longrightarrow> (\<exists>us. field r' ''properties'' = JObj us
                      \<and> (\<forall>k. field us k
                            = (if k \<in> keys (own_enumerable (own_prop sub ''properties''))
                               then field (own_enumerable (own_prop sub ''properties'')) k
                               else field (own_enumerable (js_or (field r ''properties'') (JObj []))) k))))
            \<and> (own_prop sub ''required'' = JUndefined
                 \<longrightarrow> field r' ''required'' = field r ''required'')
            \<and> (\<forall>xs ys. js_or (field r ''required'') (JArr []) = JArr xs
                    \<and> own_prop sub ''required'' = JArr ys
                  \<longrightarrow> field r' ''required'' = JArr (xs @ ys))
            \<and> (\<forall>k. k \<notin> {''type'', ''properties'', ''required'', ''parentRefs'', ''title''}
                  \<longrightarrow> field r' k = (if k \<in> keys r then field r k else field (own_enumerable sub) k))
            \<and> (field r ''title'' \<noteq> JUndefined \<longrightarrow> field r' ''title'' = field r ''title''))"
  proof (intro allI impI)
    fix pre subRef sub post
    assume "entries = pre @ (subRef, sub) # post \<and> distinct (map fst (own_enumerable sub))"
    then have e: "entries = pre @ (subRef, sub) # post"
      and ds: "distinct (map fst (own_enumerable sub))" by simp_all
    from fo have "merge_fold L ref r0 (pre @ (subRef, sub) # post) = Inr rf" by (simp add: e)
    from merge_fold_branch [OF this d0 ds]
    show "\<exists>r r'.
              merge_fold L ref r0 pre = Inr r
            \<and> merge_step L ref r (subRef, sub) = Inr r'
            \<and> merge_fold L ref r' post = Inr rf
            \<and> field r' ''type''
                = (if own_prop sub ''type'' \<noteq> JUndefined then own_prop sub ''type''
                   else field r ''type'')
            \<and> (own_prop sub ''properties'' = JUndefined
                 \<longrightarrow> field r' ''properties'' = field r ''properties'')
            \<and> (own_prop sub ''properties'' \<noteq> JUndefined
                 \<and> distinct (map fst (own_enumerable (js_or (field r ''properties'') (JObj []))))
                 \<and> distinct (map fst (own_enumerable (own_prop sub ''properties'')))
                \<longrightarrow> (\<exists>us. field r' ''properties'' = JObj us
                      \<and> (\<forall>k. field us k
                            = (if k \<in> keys (own_enumerable (own_prop sub ''properties''))
                               then field (own_enumerable (own_prop sub ''properties'')) k
                               else field (own_enumerable (js_or (field r ''properties'') (JObj []))) k))))
            \<and> (own_prop sub ''required'' = JUndefined
                 \<longrightarrow> field r' ''required'' = field r ''required'')
            \<and> (\<forall>xs ys. js_or (field r ''required'') (JArr []) = JArr xs
                    \<and> own_prop sub ''required'' = JArr ys
                  \<longrightarrow> field r' ''required'' = JArr (xs @ ys))
            \<and> (\<forall>k. k \<notin> {''type'', ''properties'', ''required'', ''parentRefs'', ''title''}
                  \<longrightarrow> field r' k = (if k \<in> keys r then field r k else field (own_enumerable sub) k))
            \<and> (field r ''title'' \<noteq> JUndefined \<longrightarrow> field r' ''title'' = field r ''title'')" .
  qed
  show ?thesis
    by (intro exI [of _ m] exI [of _ subs] exI [of _ entries] exI [of _ r0] exI [of _ rf]
        conjI n subs br la f0 a0 fo rs each)
qed

theorem mergeAllOf_asymmetry_witness:
  "map_option fst (mergeAllOf 2 std_lib doc_merge False new_RefCounter composed_schema JUndefined)
     = Some (Inr (JObj
         [(''properties'', JObj [(''a'', JObj [(''type'', JStr ''number'')]), (''b'', JObj [])]),
          (''required'', JArr [JStr ''a'', JStr ''a'']),
          (''description'', JStr ''own''), (''type'', JStr ''object''),
          (''format'', JStr ''f''), (''allOf'', JUndefined), (''parentRefs'', JArr [])]))
   \<and> own_prop composed_schema ''allOf'' = JArr [first_branch, second_branch]
   \<and> distinct (map fst (own_enumerable composed_schema))
   \<and> distinct (map fst (own_enumerable second_branch))
   \<and> (\<exists>r0 r r'.
         map_option fst (merge_branches (mergeAllOf 1 std_lib doc_merge False) std_lib doc_merge False
            new_RefCounter (new_receiver composed_schema) [first_branch, second_branch])
           = Some (Inr ([(JUndefined, first_branch), (JUndefined, second_branch)], r0))
       \<and> field r0 ''description'' = JStr ''own''
       \<and> merge_fold std_lib JUndefined r0 [(JUndefined, first_branch)] = Inr r
       \<and> merge_step std_lib JUndefined r (JUndefined, second_branch) = Inr r'
       \<and> field r ''required'' = JArr [JStr ''a'']
       \<and> field r' ''required'' = JArr [JStr ''a'', JStr ''a'']
       \<and> field r' ''type'' = JStr ''object''
       \<and> field r' ''description'' = JStr ''own''
       \<and> field r' ''format'' = JStr ''f''
       \<and> (\<exists>us. field r' ''properties'' = JObj us
             \<and> field us ''a'' = JObj [(''type'', JStr ''number'')] \<and> field us ''b'' = JObj []))"
proof -
  let ?res = "JObj
         [(''properties'', JObj [(''a'', JObj [(''type'', JStr ''number'')]), (''b'', JObj [])]),
          (''required'', JArr [JStr ''a'', JStr ''a'']),
          (''description'', JStr ''own''), (''type'', JStr ''object''),
          (''format'', JStr ''f''), (''allOf'', JUndefined), (''parentRefs'', JArr [])]"
  let ?r0 = "[(''description'', JStr ''own''), (''allOf'', JUndefined), (''parentRefs'', JArr [])]"
  let ?r1 = "[(''type'', JStr ''object''),
     (''properties'', JObj [(''a'', JObj [(''type'', JStr ''string'')]), (''b'', JObj [])]),
     (''required'', JArr [JStr ''a'']),
     (''description'', JStr ''own''), (''format'', JStr ''f''),
     (''allOf'', JUndefined), (''parentRefs'', JArr [])]"
  have e: "map_option fst (mergeAllOf 2 std_lib doc_merge False new_RefCounter composed_schema JUndefined)
      = Some (Inr ?res)" by code_simp
  note h1 = with_final_state [OF e]
  have a: "own_prop composed_schema ''allOf'' = JArr [first_branch, second_branch]" by code_simp
  then have h2: "own_prop composed_schema ''allOf'' \<noteq> JUndefined" by simp
  have h3: "distinct (map fst (own_enumerable composed_schema))" by code_simp
  have ds: "distinct (map fst (own_enumerable second_branch))" by code_simp
  have b: "map_option fst (merge_branches (mergeAllOf 1 std_lib doc_merge False) std_lib doc_merge False
          new_RefCounter (new_receiver composed_schema) [first_branch, second_branch])
      = Some (Inr ([(JUndefined, first_branch), (JUndefined, second_branch)], ?r0))"
    by code_simp
  from mergeAllOf_asymmetry [OF h1 h2 h3] obtain m subs entries r0 rf where
    n: "2 = Suc m" and s: "own_prop composed_schema ''allOf'' = JArr subs"
    and br: "merge_branches (mergeAllOf m std_lib doc_merge False) std_lib doc_merge False
          new_RefCounter (new_receiver composed_schema) subs
        = Some (Inr (entries, r0), snd (the (mergeAllOf 2 std_lib doc_merge False new_RefCounter
            composed_schema JUndefined)))"
    and f0: "\<forall>k. k \<notin> {''allOf'', ''parentRefs''} \<longrightarrow> field r0 k = own_prop composed_schema k"
    and each: "\<forall>pre subRef sub post.
          entries = pre @ (subRef, sub) # post \<and> distinct (map fst (own_enumerable sub)) \<longrightarrow>
          (\<exists>r r'.
              merge_fold std_lib JUndefined r0 pre = Inr r
            \<and> merge_step std_lib JUndefined r (subRef, sub) = Inr r'
            \<and> merge_fold std_lib JUndefined r' post = Inr rf
            \<and> field r' ''type''
                = (if own_prop sub ''type'' \<noteq> JUndefined then own_prop sub ''type''
                   else field r ''type'')
            \<and> (own_prop sub ''properties'' = JUndefined
                 \<longrightarrow> field r' ''properties'' = field r ''properties'')
            \<and> (own_prop sub ''properties'' \<noteq> JUndefined
                 \<and> distinct (map fst (own_enumerable (js_or (field r ''properties'') (JObj []))))
                 \<and> distinct (map fst (own_enumerable (own_prop sub ''properties'')))
                \<longrightarrow> (\<exists>us. field r' ''properties'' = JObj us
                      \<and> (\<forall>k. field us k
                            = (if k \<in> keys (own_enumerable (own_prop sub ''properties''))
                               then field (own_enumerable (own_prop sub ''properties'')) k
                               else field (own_enumerable (js_or (field r ''properties'') (JObj []))) k))))
            \<and> (own_prop sub ''required'' = JUndefined
                 \<longrightarrow> field r' ''required'' = field r ''required'')
            \<and> (\<forall>xs ys. js_or (field r ''required'') (JArr []) = JArr xs
                    \<and> own_prop sub ''required'' = JArr ys
                  \<longrightarrow> field r' ''required'' = JArr (xs @ ys))
            \<and> (\<forall>k. k \<notin> {''type'', ''properties'', ''required'', ''parentRefs'', ''title''}
                  \<longrightarrow> field r' k = (if k \<in> keys r then field r k else field (own_enumerable sub) k))
            \<and> (field r ''title'' \<noteq> JUndefined \<longrightarrow> field r' ''title'' = field r ''title''))"
    by (elim exE conjE) (rule that)
  from n have m: "m = 1" by simp
  from s a have subs: "subs = [first_branch, second_branch]" by simp
  from br b have en: "entries = [(JUndefined, first_branch), (JUndefined, second_branch)]"
    and r0: "r0 = ?r0" unfolding m subs by simp_all
  have sp: "entries = [(JUndefined, first_branch)] @ (JUndefined, second_branch) # []
      \<and> distinct (map fst (own_enumerable second_branch))"
    using en ds by simp
  from each [rule_format, OF sp] obtain r r' where
    pre: "merge_fold std_lib JUndefined r0 [(JUndefined, first_branch)] = Inr r"
    and step: "merge_step std_lib JUndefined r (JUndefined, second_branch) = Inr r'"
    and ty: "field r' ''type''
                = (if own_prop second_branch ''type'' \<noteq> JUndefined then own_prop second_branch ''type''
                   else field r ''type'')"
    and pr: "own_prop second_branch ''properties'' \<noteq> JUndefined
                 \<and> distinct (map fst (own_enumerable (js_or (field r ''properties'') (JObj []))))
                 \<and> distinct (map fst (own_enumerable (own_prop second_branch ''properties'')))
                \<longrightarrow> (\<exists>us. field r' ''properties'' = JObj us
                      \<and> (\<forall>k. field us k
                            = (if k \<in> keys (own_enumerable (own_prop second_branch ''properties''))
                               then field (own_enumerable (own_prop second_branch ''properties'')) k
                               else field (own_enumerable (js_or (field r ''properties'') (JObj []))) k)))"
    and rq: "\<forall>xs ys. js_or (field r ''required'') (JArr []) = JArr xs
                    \<and> own_prop second_branch ''required'' = JArr ys
                  \<longrightarrow> field r' ''required'' = JArr (xs @ ys)"
    and ot: "\<forall>k. k \<notin> {''type'', ''properties'', ''required'', ''parentRefs'', ''title''}
                  \<longrightarrow> field r' k = (if k \<in> keys r then field r k
                                      else field (own_enumerable second_branch) k)"
    by (elim exE conjE) (rule that)
  have "merge_fold std_lib JUndefined ?r0 [(JUndefined, first_branch)] = Inr ?r1" by code_simp
  with pre have r: "r = ?r1" by (simp add: r0)
  have g0: "field r0 ''description'' = JStr ''own''" unfolding r0 by code_simp
  have g1: "field r ''required'' = JArr [JStr ''a'']" unfolding r by code_simp
  have g2: "js_or (field r ''required'') (JArr []) = JArr [JStr ''a'']" unfolding r by code_simp
  have g3: "own_prop second_branch ''required'' = JArr [JStr ''a'']" by code_simp
  have g4: "own_prop second_branch ''type'' = JUndefined" by code_simp
  have g5: "field r ''type'' = JStr ''object''" unfolding r by code_simp
  have g6: "''description'' \<in> keys r \<and> field r ''description'' = JStr ''own''"
    unfolding r keys_def by code_simp
  have g7: "''format'' \<in> keys r \<and> field r ''format'' = JStr ''f''"
    unfolding r keys_def by code_simp
  have g8: "own_prop second_branch ''properties'' \<noteq> JUndefined
        \<and> distinct (map fst (own_enumerable (js_or (field r ''properties'') (JObj []))))
        \<and> distinct (map fst (own_enumerable (own_prop second_branch ''properties'')))"
    unfolding r by code_simp
  from pr g8 obtain us where us: "field r' ''properties'' = JObj us"
    and uk: "\<forall>k. field us k
        = (if k \<in> keys (own_enumerable (own_prop second_branch ''properties''))
           then field (own_enumerable (own_prop second_branch ''properties'')) k
           else field (own_enumerable (js_or (field r ''properties'') (JObj []))) k)" by blast
  have ka: "''a'' \<in> keys (own_enumerable (own_prop second_branch ''properties''))
      \<and> field (own_enumerable (own_prop second_branch ''properties'')) ''a''
          = JObj [(''type'', JStr ''number'')]"
    unfolding keys_def by code_simp
  have kb: "''b'' \<notin> keys (own_enumerable (own_prop second_branch ''properties''))
      \<and> field (own_enumerable (js_or (field r ''properties'') (JObj []))) ''b'' = JObj []"
    unfolding r keys_def by code_simp
  have ua: "field us ''a'' = JObj [(''type'', JStr ''number'')]" using uk ka by simp
  have ub: "field us ''b'' = JObj []" using uk kb by simp
  have q1: "field r' ''required'' = JArr [JStr ''a'', JStr ''a'']" using rq g2 g3 by simp
  have q2: "field r' ''type'' = JStr ''object''" using ty g4 g5 by simp
  have q3: "field r' ''description'' = JStr ''own''" using ot g6 by simp
  have q4: "field r' ''format'' = JStr ''f''" using ot g7 by simp
  have b': "map_option fst (merge_branches (mergeAllOf 1 std_lib doc_merge False) std_lib doc_merge False
          new_RefCounter (new_receiver composed_schema) [first_branch, second_branch])
      = Some (Inr ([(JUndefined, first_branch), (JUndefined, second_branch)], r0))"
    using b by (simp add: r0)
  have ex: "\<exists>us. field r' ''properties'' = JObj us
             \<and> field us ''a'' = JObj [(''type'', JStr ''number'')] \<and> field us ''b'' = JObj []"
    using us ua ub by blast
  show ?thesis
    by (intro conjI exI [of _ r0] exI [of _ r] exI [of _ r'] e a h3 ds b' g0 pre step g1 q1 q2 q3 q4 ex)
qed

section \<open>Properties of \<open>findDerived\<close>\<close>















section \<open>The document is only read\<close>

lemma unchanged_iff:
  "unchanged h h' \<longleftrightarrow> length h \<le> length h' \<and> (\<forall>a<length h. h' ! a = h ! a)"
proof
  assume "unchanged h h'"
  then have t: "take (length h) h' = h" by (simp add: unchanged_def)
  have "length (take (length h) h') = min (length h') (length h)" by simp
  with t have l: "length h \<le> length h'" by simp
  have "\<forall>a<length h. h' ! a = h ! a"
  proof (intro allI impI)
    fix a assume "a < length h"
    then have "take (length h) h' ! a = h' ! a" by simp
    with t show "h' ! a = h ! a" by simp
  qed
  with l show "length h \<le> length h' \<and> (\<forall>a<length h. h' ! a = h ! a)" by simp
next
  assume "length h \<le> length h' \<and> (\<forall>a<length h. h' ! a = h ! a)"
  then show "unchanged h h'" by (simp add: unchanged_def list_eq_iff_nth_eq)
qed

lemma unchanged_refl: "unchanged h h"
  by (simp add: unchanged_iff)

lemma unchanged_trans: "unchanged h h' \<Longrightarrow> unchanged h' h'' \<Longrightarrow> unchanged h h''"
  by (auto simp: unchanged_iff)

lemma unchanged_new: "unchanged h0 h \<Longrightarrow> unchanged h0 (h @ [c])"
  by (auto simp: unchanged_iff nth_append)

lemma unchanged_write: "unchanged h0 h \<Longrightarrow> length h0 \<le> a \<Longrightarrow> unchanged h0 (h[a := c])"
  by (auto simp: unchanged_iff)

lemma unchanged_alloc: "unchanged h0 h \<Longrightarrow> alloc h c = (v, h') \<Longrightarrow> unchanged h0 h'"
  by (auto simp: alloc_def unchanged_new)

lemma unchanged_or_new: "unchanged h0 h \<Longrightarrow> or_new h a c = (v, h') \<Longrightarrow> unchanged h0 h'"
  by (auto simp: or_new_def unchanged_alloc split: if_splits)

lemma unchanged_set_prop:
  "unchanged h0 h \<Longrightarrow> created_since h0 r \<Longrightarrow> unchanged h0 (set_prop h r k v)"
  by (auto simp: set_prop_def created_since_def unchanged_write split: val.splits option.splits cell.splits)

lemma unchanged_push:
  "unchanged h0 h \<Longrightarrow> created_since h0 arr \<Longrightarrow> push_s h arr items = Inr h' \<Longrightarrow> unchanged h0 h'"
  by (auto simp: push_s_def created_since_def unchanged_write split: val.splits option.splits cell.splits)

lemma unchanged_concat:
  "unchanged h0 h \<Longrightarrow> concat_s L h a b = Inr (v, h') \<Longrightarrow> unchanged h0 h'"
  by (auto simp: concat_s_def alloc_def unchanged_new split: val.splits option.splits cell.splits)

lemma unchanged_circular: "circular_s h resolved = (copy, h') \<Longrightarrow> unchanged h h'"
  by (auto simp: circular_s_def alloc_def unchanged_new unchanged_refl)

lemma deref_s_unchanged: "deref_s L spec h rc obj fc = (res, h', rc') \<Longrightarrow> unchanged h h'"
proof (induction L spec h rc obj fc arbitrary: res h' rc' rule: deref_s.induct)
  case (1 L spec h rc obj forceCircular)
  show ?case
  proof (cases "isRef_s h obj")
    case False
    then show ?thesis using "1.prems" by (simp add: deref_s.simps [of L spec h rc obj] unchanged_refl)
  next
    case r: True
    show ?thesis
    proof (cases "byRef_s L h spec (own_prop_s h obj ''$ref'')")
      case (Inl e)
      then show ?thesis using "1.prems" r
        by (simp add: deref_s.simps [of L spec h rc obj] unchanged_refl)
    next
      case (Inr resolved)
      show ?thesis
      proof (cases "visited rc (ref_key_s L h obj) \<and> \<not> forceCircular")
        case True
        then show ?thesis using "1.prems" r Inr
          by (auto simp: deref_s.simps [of L spec h rc obj] split: prod.splits
              dest: unchanged_circular)
      next
        case nv: False
        show ?thesis
        proof (cases "isRef_s h resolved")
          case False
          then show ?thesis using "1.prems" r Inr nv
            by (auto simp: deref_s.simps [of L spec h rc obj] unchanged_refl)
        next
          case True
          obtain x h1 rc1 where
            d: "deref_s L spec h (visit rc (ref_key_s L h obj)) resolved False = (x, h1, rc1)"
            by (cases "deref_s L spec h (visit rc (ref_key_s L h obj)) resolved False") auto
          from "1.IH" [OF r Inr nv True d] have "unchanged h h1" .
          moreover have "h' = h1" using "1.prems" r Inr nv True d
            by (cases x) (auto simp: deref_s.simps [of L spec h rc obj])
          ultimately show ?thesis by simp
        qed
      qed
    qed
  qed
qed


subsection \<open>The receiver stays a new object\<close>

lemma field_s_update: "field_s (AList.update k v al) k' = (if k' = k then v else field_s al k')"
  by (simp add: field_s_def update_conv')

lemma field_s_assign_present:
  assumes "distinct (map fst src)" and "field_s src k \<noteq> VUndefined"
  shows "field_s (assign tgt src) k = field_s src k"
proof -
  from assms(2) obtain v where "map_of src k = Some v"
    by (cases "map_of src k") (auto simp: field_s_def)
  then show ?thesis
    by (simp add: field_s_def map_of_assign [OF assms(1)] map_add_def)
qed

lemma receiver_okD:
  assumes "receiver_ok h0 h r"
  obtains a kvs p where "r = VRef a" "length h0 \<le> a" "a < length h" "h ! a = Object kvs"
    "distinct (map fst kvs)" "field_s kvs ''parentRefs'' = VRef p" "length h0 \<le> p" "p < length h"
proof -
  from assms obtain a where r: "r = VRef a" by (cases r) (auto simp: receiver_ok_def)
  from assms r have a: "length h0 \<le> a" "a < length h" by (auto simp: receiver_ok_def)
  from assms r a obtain kvs where c: "h ! a = Object kvs"
    by (cases "h ! a") (auto simp: receiver_ok_def)
  from assms r a c have d: "distinct (map fst kvs)" by (auto simp: receiver_ok_def)
  from assms r a c obtain p where p: "field_s kvs ''parentRefs'' = VRef p"
    by (cases "field_s kvs ''parentRefs''") (auto simp: receiver_ok_def)
  from assms r a c p have "length h0 \<le> p" "p < length h" by (auto simp: receiver_ok_def)
  with r a c d p show thesis by (rule that)
qed

lemma receiver_okI:
  "r = VRef a \<Longrightarrow> length h0 \<le> a \<Longrightarrow> a < length h \<Longrightarrow> h ! a = Object kvs \<Longrightarrow>
   distinct (map fst kvs) \<Longrightarrow> field_s kvs ''parentRefs'' = VRef p \<Longrightarrow> length h0 \<le> p \<Longrightarrow>
   p < length h \<Longrightarrow> receiver_ok h0 h r"
  by (simp add: receiver_ok_def)

lemma receiver_ok_created: "receiver_ok h0 h r \<Longrightarrow> created_since h0 r"
  by (erule receiver_okD) (simp add: created_since_def)

lemma receiver_ok_parentRefs:
  "receiver_ok h0 h r \<Longrightarrow> created_since h0 (own_prop_s h r ''parentRefs'')"
  by (erule receiver_okD) (simp add: created_since_def own_prop_s_def cell_at_def)

lemma receiver_ok_mono: "receiver_ok h0 h r \<Longrightarrow> unchanged h h' \<Longrightarrow> receiver_ok h0 h' r"
proof (erule receiver_okD)
  fix a kvs p
  assume u: "unchanged h h'" and *: "r = VRef a" "length h0 \<le> a" "a < length h"
    "h ! a = Object kvs" "distinct (map fst kvs)" "field_s kvs ''parentRefs'' = VRef p"
    "length h0 \<le> p" "p < length h"
  from u * have "a < length h'" "p < length h'" "h' ! a = Object kvs"
    by (auto simp: unchanged_iff)
  with * show ?thesis by (auto intro: receiver_okI)
qed

lemma receiver_ok_set_prop:
  "receiver_ok h0 h r \<Longrightarrow> k \<noteq> ''parentRefs'' \<Longrightarrow> receiver_ok h0 (set_prop h r k v) r"
proof (erule receiver_okD)
  fix a kvs p
  assume k: "k \<noteq> ''parentRefs''" and *: "r = VRef a" "length h0 \<le> a" "a < length h"
    "h ! a = Object kvs" "distinct (map fst kvs)" "field_s kvs ''parentRefs'' = VRef p"
    "length h0 \<le> p" "p < length h"
  have s: "set_prop h r k v = h[a := Object (AList.update k v kvs)]"
    using * by (simp add: set_prop_def cell_at_def)
  show ?thesis
    unfolding s
    by (rule receiver_okI [where a = a and p = p and kvs = "AList.update k v kvs"])
      (use * k in \<open>simp_all add: distinct_update field_s_update\<close>)
qed

lemma receiver_ok_push:
  "receiver_ok h0 h r \<Longrightarrow> push_s h (own_prop_s h r ''parentRefs'') items = Inr h' \<Longrightarrow>
   receiver_ok h0 h' r"
proof (erule receiver_okD)
  fix a kvs p
  assume pu: "push_s h (own_prop_s h r ''parentRefs'') items = Inr h'"
    and *: "r = VRef a" "length h0 \<le> a" "a < length h"
    "h ! a = Object kvs" "distinct (map fst kvs)" "field_s kvs ''parentRefs'' = VRef p"
    "length h0 \<le> p" "p < length h"
  have o: "own_prop_s h r ''parentRefs'' = VRef p"
    using * by (simp add: own_prop_s_def cell_at_def)
  from pu obtain xs where xs: "h ! p = Array xs" and h': "h' = h[p := Array (xs @ items)]"
    unfolding o using * by (auto simp: push_s_def cell_at_def split: cell.splits)
  from xs * have "p \<noteq> a" by auto
  then have "h' ! a = Object kvs" using * h' by simp
  then show ?thesis
    using * h' by (intro receiver_okI [where a = a and p = p and kvs = kvs]) simp_all
qed

lemma receiver_ok_spread:
  assumes "receiver_ok h0 h r"
    and "alloc h (Object (assign (assign [] src) (own_enumerable_s h r))) = (r', h')"
  shows "receiver_ok h0 h' r'"
proof (rule receiver_okD [OF assms(1)])
  fix a kvs p
  assume *: "r = VRef a" "length h0 \<le> a" "a < length h"
    "h ! a = Object kvs" "distinct (map fst kvs)" "field_s kvs ''parentRefs'' = VRef p"
    "length h0 \<le> p" "p < length h"
  have e: "own_enumerable_s h r = kvs"
    using * by (simp add: own_enumerable_s_def cell_at_def)
  from assms(2) have r': "r' = VRef (length h)"
    and h': "h' = h @ [Object (assign (assign [] src) kvs)]"
    by (auto simp: alloc_def e)
  have f: "field_s (assign (assign [] src) kvs) ''parentRefs'' = VRef p"
    using * by (simp add: field_s_assign_present)
  show ?thesis
    by (rule receiver_okI [where a = "length h" and p = p
          and kvs = "assign (assign [] src) kvs"])
      (use * r' h' f in \<open>simp_all add: distinct_assign\<close>)
qed

lemma new_receiver_s_ok:
  assumes "new_receiver_s h schema = (r, h')"
  shows "unchanged h h' \<and> receiver_ok h h' r"
proof -
  let ?kvs = "assign (assign [] (own_enumerable_s (h @ [Array []]) schema))
                [(''allOf'', VUndefined), (''parentRefs'', VRef (length h))]"
  from assms have r: "r = VRef (Suc (length h))" and h': "h' = h @ [Array [], Object ?kvs]"
    by (auto simp: new_receiver_s_def alloc_def)
  have d: "distinct (map fst [(''allOf'', VUndefined), (''parentRefs'', VRef (length h))])"
    by simp
  have "field_s [(''allOf'', VUndefined), (''parentRefs'', VRef (length h))] ''parentRefs''
          = VRef (length h)" by (simp add: field_s_def)
  then have f: "field_s ?kvs ''parentRefs'' = VRef (length h)"
    using field_s_assign_present [OF d, of "''parentRefs''"] by simp
  have u: "unchanged h h'" unfolding h' by (auto simp: unchanged_iff nth_append)
  have "receiver_ok h h' r"
    by (rule receiver_okI [where a = "Suc (length h)" and p = "length h" and kvs = ?kvs])
      (use r h' f in \<open>simp_all add: distinct_assign nth_append\<close>)
  with u show ?thesis by simp
qed


subsection \<open>The loop body writes new cells only\<close>

lemma alloc_ok:
  assumes "unchanged h0 h" and "receiver_ok h0 h r" and "alloc h c = (v, h')"
  shows "unchanged h0 h' \<and> receiver_ok h0 h' r"
proof -
  have "unchanged h h'" using unchanged_refl assms(3) by (rule unchanged_alloc)
  with assms show ?thesis by (auto intro: unchanged_trans receiver_ok_mono)
qed

lemma or_new_ok:
  assumes "unchanged h0 h" and "receiver_ok h0 h r" and "or_new h a c = (v, h')"
  shows "unchanged h0 h' \<and> receiver_ok h0 h' r"
proof -
  have "unchanged h h'" using unchanged_refl assms(3) by (rule unchanged_or_new)
  with assms show ?thesis by (auto intro: unchanged_trans receiver_ok_mono)
qed

lemma set_prop_ok:
  assumes "unchanged h0 h" and "receiver_ok h0 h r" and "k \<noteq> ''parentRefs''"
  shows "unchanged h0 (set_prop h r k v) \<and> receiver_ok h0 (set_prop h r k v) r"
  using assms by (simp add: unchanged_set_prop receiver_ok_created receiver_ok_set_prop)

lemma merge_type_s_ok:
  assumes "unchanged h0 h" and "receiver_ok h0 h r"
  shows "unchanged h0 (merge_type_s h r sub) \<and> receiver_ok h0 (merge_type_s h r sub) r"
  using assms set_prop_ok [OF assms, of "''type''"] by (simp add: merge_type_s_def)

lemma merge_properties_s_ok:
  assumes "unchanged h0 h" and "receiver_ok h0 h r"
  shows "unchanged h0 (merge_properties_s h r sub) \<and> receiver_ok h0 (merge_properties_s h r sub) r"
proof (cases "own_prop_s h sub ''properties'' \<noteq> VUndefined")
  case False
  then show ?thesis using assms by (simp add: merge_properties_s_def)
next
  case True
  obtain base h1 where b: "or_new h (own_prop_s h r ''properties'') (Object []) = (base, h1)"
    by (cases "or_new h (own_prop_s h r ''properties'') (Object [])")
  obtain p h2 where
    a: "alloc h1 (Object (assign (assign [] (own_enumerable_s h1 base))
                  (own_enumerable_s h1 (own_prop_s h1 sub ''properties'')))) = (p, h2)"
    by (cases "alloc h1 (Object (assign (assign [] (own_enumerable_s h1 base))
                  (own_enumerable_s h1 (own_prop_s h1 sub ''properties''))))")
  from or_new_ok [OF assms b] have 1: "unchanged h0 h1" "receiver_ok h0 h1 r" by simp_all
  from alloc_ok [OF 1 a] have 2: "unchanged h0 h2" "receiver_ok h0 h2 r" by simp_all
  have "merge_properties_s h r sub = set_prop h2 r ''properties'' p"
    using True b a by (simp add: merge_properties_s_def)
  then show ?thesis using set_prop_ok [OF 2, of "''properties''" p] by simp
qed

lemma merge_required_s_ok:
  assumes "unchanged h0 h" and "receiver_ok h0 h r" and "merge_required_s L h r sub = (e, h')"
  shows "unchanged h0 h' \<and> receiver_ok h0 h' r"
proof (cases "own_prop_s h sub ''required'' \<noteq> VUndefined")
  case False
  then show ?thesis using assms by (simp add: merge_required_s_def)
next
  case True
  obtain base h1 where b: "or_new h (own_prop_s h r ''required'') (Array []) = (base, h1)"
    by (cases "or_new h (own_prop_s h r ''required'') (Array [])")
  from or_new_ok [OF assms(1,2) b] have 1: "unchanged h0 h1" "receiver_ok h0 h1 r" by simp_all
  show ?thesis
  proof (cases "concat_s L h1 base (own_prop_s h1 sub ''required'')")
    case (Inl x)
    then have "h' = h1" using assms(3) True b by (simp add: merge_required_s_def)
    then show ?thesis using 1 by simp
  next
    case (Inr y)
    obtain v h2 where y: "y = (v, h2)" by (cases y)
    have u: "unchanged h1 h2" using unchanged_refl Inr [unfolded y] by (rule unchanged_concat)
    then have 2: "unchanged h0 h2" "receiver_ok h0 h2 r"
      using 1 by (auto intro: unchanged_trans receiver_ok_mono)
    have "h' = set_prop h2 r ''required'' v"
      using assms(3) True b Inr y by (simp add: merge_required_s_def)
    then show ?thesis using set_prop_ok [OF 2, of "''required''" v] by simp
  qed
qed

lemma merge_parent_s_ok:
  assumes "unchanged h0 h" and "receiver_ok h0 h r" and "merge_parent_s L h r subRef = Inr h'"
  shows "unchanged h0 h' \<and> receiver_ok h0 h' r"
proof (cases "truthy_s subRef")
  case False
  then show ?thesis using assms by (simp add: merge_parent_s_def)
next
  case True
  from assms(3) True obtain h1 where
    p: "push_s h (own_prop_s h r ''parentRefs'') [subRef] = Inr h1"
    by (cases "push_s h (own_prop_s h r ''parentRefs'') [subRef]") (auto simp: merge_parent_s_def)
  have 1: "unchanged h0 h1" "receiver_ok h0 h1 r"
    using unchanged_push [OF assms(1) receiver_ok_parentRefs [OF assms(2)] p]
      receiver_ok_push [OF assms(2) p] by simp_all
  from assms(3) True p have "h' = h1 \<or> h' = set_prop h1 r ''title'' (s_baseName L subRef)"
    by (auto simp: merge_parent_s_def split: if_splits)
  then show ?thesis using 1 set_prop_ok [OF 1, of "''title''"] by auto
qed

lemma merge_step_s_ok:
  assumes "unchanged h0 h" and "receiver_ok h0 h r" and "merge_step_s L ref h r entry = (res, h')"
  shows "unchanged h0 h' \<and> (\<forall>r'. res = Inr r' \<longrightarrow> receiver_ok h0 h' r')"
proof -
  obtain subRef sub where e: "entry = (subRef, sub)" by (cases entry)
  show ?thesis
  proof (cases "getprop_s h sub ''type''")
    case (Inl x)
    then show ?thesis using assms by (auto simp: merge_step_s_def e)
  next
    case (Inr subType)
    show ?thesis
    proof (cases "own_prop_s h r ''type'' \<noteq> subType
               \<and> own_prop_s h r ''type'' \<noteq> VUndefined \<and> subType \<noteq> VUndefined")
      case True
      then show ?thesis using assms Inr by (auto simp: merge_step_s_def e)
    next
      case False
      let ?h2 = "merge_properties_s (merge_type_s h r sub) r sub"
      from merge_type_s_ok [OF assms(1,2), of sub]
      have 1: "unchanged h0 (merge_type_s h r sub)" "receiver_ok h0 (merge_type_s h r sub) r"
        by simp_all
      from merge_properties_s_ok [OF 1, of sub]
      have 2: "unchanged h0 ?h2" "receiver_ok h0 ?h2 r" by simp_all
      obtain x h3 where q: "merge_required_s L ?h2 r sub = (x, h3)"
        by (cases "merge_required_s L ?h2 r sub")
      from merge_required_s_ok [OF 2 q] have 3: "unchanged h0 h3" "receiver_ok h0 h3 r" by simp_all
      show ?thesis
      proof (cases x)
        case (Some err)
        then have "h' = h3" "res = Inl err"
          using assms(3) Inr False q by (auto simp: merge_step_s_def e)
        then show ?thesis using 3 by simp
      next
        case None
        obtain r1 h4 where
          a: "alloc h3 (Object (assign (assign [] (own_enumerable_s h3 sub))
                          (own_enumerable_s h3 r))) = (r1, h4)"
          by (cases "alloc h3 (Object (assign (assign [] (own_enumerable_s h3 sub))
                          (own_enumerable_s h3 r)))")
        from alloc_ok [OF 3 a] have 4: "unchanged h0 h4" by simp
        from receiver_ok_spread [OF 3(2) a] have 5: "receiver_ok h0 h4 r1" .
        show ?thesis
        proof (cases "merge_parent_s L h4 r1 subRef")
          case (Inl err)
          then have "h' = h4" "res = Inl err"
            using assms(3) Inr False q None a by (auto simp: merge_step_s_def e)
          then show ?thesis using 4 by simp
        next
          case (Inr h5)
          then have "h' = h5" "res = Inr r1"
            using assms(3) \<open>getprop_s h sub ''type'' = Inr subType\<close> False q None a
            by (auto simp: merge_step_s_def e)
          then show ?thesis using merge_parent_s_ok [OF 4 5 Inr] by simp
        qed
      qed
    qed
  qed
qed

lemma merge_fold_s_ok:
  "unchanged h0 h \<Longrightarrow> receiver_ok h0 h r \<Longrightarrow> merge_fold_s L ref h r entries = (res, h') \<Longrightarrow>
   unchanged h0 h' \<and> (\<forall>r'. res = Inr r' \<longrightarrow> receiver_ok h0 h' r')"
proof (induction entries arbitrary: h r)
  case Nil
  then show ?case by auto
next
  case (Cons entry entries)
  obtain x h1 where s: "merge_step_s L ref h r entry = (x, h1)"
    by (cases "merge_step_s L ref h r entry")
  from merge_step_s_ok [OF Cons.prems(1,2) s]
  have 1: "unchanged h0 h1" "\<forall>r'. x = Inr r' \<longrightarrow> receiver_ok h0 h1 r'" by simp_all
  show ?case
  proof (cases x)
    case (Inl err)
    then show ?thesis using Cons.prems(3) s 1 by simp
  next
    case (Inr r1)
    then have "merge_fold_s L ref h1 r1 entries = (res, h')" using Cons.prems(3) s by simp
    from Cons.IH [OF 1(1) _ this] 1(2) Inr show ?thesis by simp
  qed
qed


subsection \<open>The branches and the whole merge\<close>

lemma merge_branch_s_ok:
  assumes frame: "\<And>h rc s r res h' rc'. mergeAllOf_rec h rc s r = Some (res, h', rc') \<Longrightarrow> unchanged h h'"
    and u: "unchanged h0 h" and ok: "receiver_ok h0 h receiver"
    and run: "merge_branch_s mergeAllOf_rec L spec fc h rc receiver subSchema = Some (res, h', rc')"
  shows "unchanged h0 h' \<and> receiver_ok h0 h' receiver"
proof -
  obtain x h1 rc1 where d: "deref_s L spec h rc subSchema fc = (x, h1, rc1)"
    by (cases "deref_s L spec h rc subSchema fc")
  from deref_s_unchanged [OF d] have "unchanged h h1" .
  with u ok have 1: "unchanged h0 h1" "receiver_ok h0 h1 receiver"
    by (auto intro: unchanged_trans receiver_ok_mono)
  show ?thesis
  proof (cases x)
    case (Inl e)
    then have "h' = h1" using run d by (simp add: merge_branch_s_def)
    then show ?thesis using 1 by simp
  next
    case resolved: (Inr resolved)
    show ?thesis
    proof (cases "getprop_s h1 subSchema ''$ref''")
      case (Inl e)
      then have "h' = h1" using run d resolved by (simp add: merge_branch_s_def)
      then show ?thesis using 1 by simp
    next
      case r: (Inr r)
      let ?ref = "if truthy_s r then r else VUndefined"
      show ?thesis
      proof (cases "mergeAllOf_rec h1 rc1 resolved ?ref")
        case None
        then show ?thesis using run d resolved r by (simp add: merge_branch_s_def)
      next
        case (Some y)
        obtain z h2 rc2 where y: "y = (z, h2, rc2)" by (cases y)
        from frame [OF Some [unfolded y]] have "unchanged h1 h2" .
        with 1 have 2: "unchanged h0 h2" "receiver_ok h0 h2 receiver"
          by (auto intro: unchanged_trans receiver_ok_mono)
        show ?thesis
        proof (cases z)
          case (Inl e)
          then have "h' = h2" using run d resolved r Some y by (simp add: merge_branch_s_def)
          then show ?thesis using 2 by simp
        next
          case subMerged: (Inr subMerged)
          show ?thesis
          proof (cases "getprop_s h2 subMerged ''parentRefs''")
            case (Inl e)
            then have "h' = h2"
              using run d resolved r Some y subMerged by (simp add: merge_branch_s_def)
            then show ?thesis using 2 by simp
          next
            case parents: (Inr parents)
            obtain arg h3 where o: "or_new h2 parents (Array []) = (arg, h3)"
              by (cases "or_new h2 parents (Array [])")
            from or_new_ok [OF 2 o]
            have 3: "unchanged h0 h3" "receiver_ok h0 h3 receiver" by simp_all
            show ?thesis
            proof (cases "spread_args_s h3 arg")
              case (Inl e)
              then have "h' = h3"
                using run d resolved r Some y subMerged parents o
                by (simp add: merge_branch_s_def)
              then show ?thesis using 3 by simp
            next
              case items: (Inr items)
              show ?thesis
              proof (cases "push_s h3 (own_prop_s h3 receiver ''parentRefs'') items")
                case (Inl e)
                then have "h' = h3"
                  using run d resolved r Some y subMerged parents o items
                  by (simp add: merge_branch_s_def)
                then show ?thesis using 3 by simp
              next
                case (Inr h4)
                then have "h' = h4"
                  using run d resolved r Some y subMerged parents o items
                  by (simp add: merge_branch_s_def)
                then show ?thesis
                  using unchanged_push [OF 3(1) receiver_ok_parentRefs [OF 3(2)] Inr]
                    receiver_ok_push [OF 3(2) Inr] by simp
              qed
            qed
          qed
        qed
      qed
    qed
  qed
qed

lemma merge_branches_s_ok:
  assumes frame: "\<And>h rc s r res h' rc'. mergeAllOf_rec h rc s r = Some (res, h', rc') \<Longrightarrow> unchanged h h'"
  shows "unchanged h0 h \<Longrightarrow> receiver_ok h0 h receiver \<Longrightarrow>
         merge_branches_s mergeAllOf_rec L spec fc h rc receiver subs = Some (res, h', rc') \<Longrightarrow>
         unchanged h0 h' \<and> receiver_ok h0 h' receiver"
proof (induction subs arbitrary: h rc res h' rc')
  case Nil
  then show ?case by simp
next
  case (Cons sub subs)
  show ?case
  proof (cases "merge_branch_s mergeAllOf_rec L spec fc h rc receiver sub")
    case None
    then show ?thesis using Cons.prems(3) by simp
  next
    case (Some y)
    obtain x h1 rc1 where y: "y = (x, h1, rc1)" by (cases y)
    from merge_branch_s_ok [OF frame Cons.prems(1,2) Some [unfolded y]]
    have 1: "unchanged h0 h1" "receiver_ok h0 h1 receiver" by simp_all
    show ?thesis
    proof (cases x)
      case (Inl e)
      then have "h' = h1" using Cons.prems(3) Some y by simp
      then show ?thesis using 1 by simp
    next
      case (Inr entry)
      show ?thesis
      proof (cases "merge_branches_s mergeAllOf_rec L spec fc h1 rc1 receiver subs")
        case None
        then show ?thesis using Cons.prems(3) Some y Inr by simp
      next
        case rest: (Some w)
        obtain x2 h2 rc2 where w: "w = (x2, h2, rc2)" by (cases w)
        from Cons.IH [OF 1 rest [unfolded w]]
        have 2: "unchanged h0 h2 \<and> receiver_ok h0 h2 receiver" .
        have "h' = h2" using Cons.prems(3) Some y Inr rest w by (cases x2) simp_all
        then show ?thesis using 2 by simp
      qed
    qed
  qed
qed

lemma mergeAllOf_s_frame:
  "mergeAllOf_s n L spec fc h rc schema ref = Some (res, h', rc') \<Longrightarrow>
   unchanged h h' \<and>
   (\<forall>r. res = Inr r \<longrightarrow>
      (if getprop_s h schema ''allOf'' = Inr VUndefined then r = schema else receiver_ok h h' r))"
proof (induction n arbitrary: h rc schema ref res h' rc')
  case 0
  then show ?case by (simp add: mergeAllOf_s.simps)
next
  case (Suc n)
  note run = Suc.prems
  have frame: "\<And>h rc s r res h' rc'.
      mergeAllOf_s n L spec fc h rc s r = Some (res, h', rc') \<Longrightarrow> unchanged h h'"
    using Suc.IH by blast
  show ?case
  proof (cases "getprop_s h schema ''allOf''")
    case (Inl e)
    then show ?thesis using run by (auto simp: mergeAllOf_s.simps unchanged_refl)
  next
    case allOf: (Inr allOf)
    show ?thesis
    proof (cases "allOf = VUndefined")
      case True
      then show ?thesis using run allOf by (auto simp: mergeAllOf_s.simps unchanged_refl)
    next
      case False
      obtain receiver h1 where n: "new_receiver_s h schema = (receiver, h1)"
        by (cases "new_receiver_s h schema")
      from new_receiver_s_ok [OF n]
      have 1: "unchanged h h1" "receiver_ok h h1 receiver" by simp_all
      have ne: "getprop_s h schema ''allOf'' \<noteq> Inr VUndefined" using allOf False by simp
      show ?thesis
      proof (cases "\<exists>subs. cell_at h1 allOf = Some (Array subs)")
        case no: False
        then have "res = Inl ThrownTypeError \<and> h' = h1"
          using run allOf False n
          by (auto simp: mergeAllOf_s.simps split: option.splits cell.splits)
        then show ?thesis using 1 by simp
      next
        case True
        then obtain subs where c: "cell_at h1 allOf = Some (Array subs)" by blast
        show ?thesis
        proof (cases "merge_branches_s (mergeAllOf_s n L spec fc) L spec fc h1 rc receiver subs")
          case None
          then show ?thesis using run allOf False n c by (simp add: mergeAllOf_s.simps)
        next
          case (Some y)
          obtain x h2 rc2 where y: "y = (x, h2, rc2)" by (cases y)
          from merge_branches_s_ok [OF frame 1 Some [unfolded y]]
          have 2: "unchanged h h2" "receiver_ok h h2 receiver" by simp_all
          show ?thesis
          proof (cases x)
            case (Inl e)
            then have "res = Inl e \<and> h' = h2"
              using run allOf False n c Some y by (simp add: mergeAllOf_s.simps)
            then show ?thesis using 2 by simp
          next
            case entries: (Inr entries)
            obtain z h3 where f: "merge_fold_s L ref h2 receiver entries = (z, h3)"
              by (cases "merge_fold_s L ref h2 receiver entries")
            from merge_fold_s_ok [OF 2 f]
            have 3: "unchanged h h3" "\<forall>r'. z = Inr r' \<longrightarrow> receiver_ok h h3 r'" by simp_all
            show ?thesis
            proof (cases z)
              case (Inl e)
              then have "res = Inl e \<and> h' = h3"
                using run allOf False n c Some y entries f by (simp add: mergeAllOf_s.simps)
              then show ?thesis using 3 by simp
            next
              case (Inr r')
              then have *: "res = Inr r'" "h' = top_title_s L h3 schema ref r'"
                using run allOf False n c Some y entries f by (simp_all add: mergeAllOf_s.simps)
              from 3 Inr have 4: "receiver_ok h h3 r'" by simp
              have "unchanged h h' \<and> receiver_ok h h' r'"
                using 3(1) 4 set_prop_ok [OF 3(1) 4, of "''title''" "s_baseName L ref"]
                by (simp add: * top_title_s_def)
              then show ?thesis using * ne by simp
            qed
          qed
        qed
      qed
    qed
  qed
qed

lemma mergeAllOf_s_unchanged:
  "mergeAllOf_s n L spec fc h rc schema ref = Some (res, h', rc') \<Longrightarrow> unchanged h h'"
  using mergeAllOf_s_frame by blast

text \<open>The merged schema of a schema that has a composition list is an object created by the call.\<close>

lemma mergeAllOf_s_new:
  assumes "mergeAllOf_s n L spec fc h rc schema ref = Some (Inr r, h', rc')"
    and "own_prop_s h schema ''allOf'' \<noteq> VUndefined"
  shows "receiver_ok h h' r"
proof -
  from assms(2) have "getprop_s h schema ''allOf'' \<noteq> Inr VUndefined"
    by (simp add: getprop_s_def)
  with mergeAllOf_s_frame [OF assms(1)] show ?thesis by simp
qed

subsection \<open>\<open>findDerived\<close>\<close>

lemma findDerived_loop_s_unchanged:
  "unchanged h0 h \<Longrightarrow> created_since h0 out \<Longrightarrow>
   findDerived_loop_s L spec refs h rc out defs = (res, h', rc') \<Longrightarrow> unchanged h0 h'"
proof (induction defs arbitrary: h rc)
  case Nil
  then show ?case by simp
next
  case (Cons d defs)
  obtain defName schema where dd: "d = (defName, schema)" by (cases d)
  obtain x h1 rc1 where de: "deref_s L spec h rc schema False = (x, h1, rc1)"
    by (cases "deref_s L spec h rc schema False")
  from deref_s_unchanged [OF de] Cons.prems(1) have 1: "unchanged h0 h1"
    by (auto intro: unchanged_trans)
  show ?case
  proof (cases x)
    case (Inl e)
    then have "h' = h1" using Cons.prems(3) dd de by simp
    then show ?thesis using 1 by simp
  next
    case (Inr def)
    show ?thesis
    proof (cases "is_derived_s h1 refs def")
      case (Inl e)
      then have "h' = h1" using Cons.prems(3) dd de Inr by simp
      then show ?thesis using 1 by simp
    next
      case derived: (Inr derived)
      let ?h2 = "if derived then set_prop h1 out (def_pointer defName) (VStr defName) else h1"
      have 2: "unchanged h0 ?h2"
        using 1 unchanged_set_prop [OF 1 Cons.prems(2)] by simp
      have "findDerived_loop_s L spec refs ?h2 rc1 out defs = (res, h', rc')"
        using Cons.prems(3) dd de Inr derived by simp
      from Cons.IH [OF 2 Cons.prems(2) this] show ?thesis .
    qed
  qed
qed

lemma findDerived_s_unchanged:
  assumes "findDerived_s L spec h rc refs = (res, h', rc')"
  shows "unchanged h h'"
proof -
  let ?out = "VRef (length h)" and ?h1 = "h @ [Object []]"
  have a: "alloc h (Object []) = (?out, ?h1)" by (simp add: alloc_def)
  have 1: "unchanged h ?h1" using unchanged_refl by (rule unchanged_new)
  have c: "created_since h ?out" by (simp add: created_since_def)
  show ?thesis
  proof (cases "schemas_of_s ?h1 spec")
    case (Inl e)
    then have "h' = ?h1" using assms a by (simp add: findDerived_s_def)
    then show ?thesis using 1 by simp
  next
    case (Inr y)
    obtain schemas h2 where y: "y = (schemas, h2)" by (cases y)
    from Inr y have "\<exists>v. or_new ?h1 v (Object []) = (schemas, h2)"
      by (auto simp: schemas_of_s_def split: sum.splits)
    then have 2: "unchanged h h2" using unchanged_or_new [OF 1] by blast
    have "findDerived_loop_s L spec refs h2 rc ?out (own_enumerable_s h2 schemas) = (res, h', rc')"
      using assms a Inr y by (simp add: findDerived_s_def)
    from findDerived_loop_s_unchanged [OF 2 c this] show ?thesis .
  qed
qed

subsection \<open>The marked copy is a new object\<close>

lemma deref_s_circular_copy:
  assumes "isRef_s h obj" and "byRef_s L h spec (own_prop_s h obj ''$ref'') = Inr resolved"
    and "visited rc (ref_key_s L h obj)"
  shows "\<exists>kvs rc'. deref_s L spec h rc obj False = (Inr (VRef (length h)), h @ [Object kvs], rc')
           \<and> field_s kvs ''x-circular-ref'' = VBool True"
  using assms
  by (simp add: deref_s.simps [of L spec h rc obj] circular_s_def alloc_def field_s_def map_of_assign)

subsection \<open>Sequences of calls\<close>

lemma run_op_unchanged:
  assumes "run_op n L spec call h rc = Some (res, h', rc')"
  shows "unchanged h h'"
proof (cases call)
  case (Deref obj fc)
  then show ?thesis using assms deref_s_unchanged by (simp add: run_op_def)
next
  case (MergeAllOf schema ref fc)
  then show ?thesis using assms mergeAllOf_s_unchanged by (simp add: run_op_def)
next
  case (FindDerived refs)
  then show ?thesis using assms findDerived_s_unchanged by (simp add: run_op_def)
qed

lemma with_final_store: "x \<noteq> None \<Longrightarrow> x = Some (fst (the x), fst (snd (the x)), snd (snd (the x)))"
  by (cases x) auto

text \<open>
  C8. \<open>deref\<close>, \<open>mergeAllOf\<close> and \<open>findDerived\<close> write only into objects and arrays they
  have created themselves: after any sequence of these calls, from any store and any
  counter, every object and array that was in the store before is in it still, at the
  same address and with the same fields and items. That holds too when calls of the
  sequence throw.
\<close>

theorem operations_leave_document_unchanged:
  "run_ops n L spec calls h rc = Some (outs, h', rc') \<Longrightarrow> unchanged h h'"
proof (induction calls arbitrary: h rc outs h' rc')
  case Nil
  then show ?case by (simp add: unchanged_refl)
next
  case (Cons call calls)
  show ?case
  proof (cases "run_op n L spec call h rc")
    case None
    then show ?thesis using Cons.prems by simp
  next
    case (Some y)
    obtain res h1 rc1 where y: "y = (res, h1, rc1)" by (cases y)
    from run_op_unchanged [OF Some [unfolded y]] have 1: "unchanged h h1" .
    show ?thesis
    proof (cases "run_ops n L spec calls h1 rc1")
      case None
      then show ?thesis using Cons.prems Some y by simp
    next
      case rest: (Some w)
      obtain outs2 h2 rc2 where w: "w = (outs2, h2, rc2)" by (cases w)
      have "h' = h2" using Cons.prems Some y rest w by simp
      with Cons.IH [OF rest [unfolded w]] 1 show ?thesis by (auto intro: unchanged_trans)
    qed
  qed
qed

theorem operations_leave_document_unchanged_witness:
  "run_ops 2 std_slib (VRef 0) doc_calls doc_store new_RefCounter \<noteq> None
   \<and> unchanged doc_store
        (fst (snd (the (run_ops 2 std_slib (VRef 0) doc_calls doc_store new_RefCounter))))
   \<and> length doc_store
        < length (fst (snd (the (run_ops 2 std_slib (VRef 0) doc_calls doc_store new_RefCounter))))"
proof -
  have ne: "run_ops 2 std_slib (VRef 0) doc_calls doc_store new_RefCounter \<noteq> None"
    by code_simp
  have grows: "length doc_store
      < length (fst (snd (the (run_ops 2 std_slib (VRef 0) doc_calls doc_store new_RefCounter))))"
    by code_simp
  from operations_leave_document_unchanged [OF with_final_store [OF ne]] ne grows
  show ?thesis by simp
qed


end
